theory Spec2Isabelle
  imports Main "HOL-Library.Sublist"
begin

section \<open>Values, items and the observable trace\<close>

text \<open>
  JavaScript values as far as the appliance engine looks at them: the engine only tests
  values for truthiness and compares them with \<open>===\<close> against literals.
\<close>

datatype val = Undefined | Null | Bool bool | Num int | Str string

fun truthy :: "val \<Rightarrow> bool" where
  "truthy Undefined = False"
| "truthy Null = False"
| "truthy (Bool b) = b"
| "truthy (Num n) = (n \<noteq> 0)"
| "truthy (Str s) = (s \<noteq> [])"

type_synonym key = string

text \<open>An item \<open>{ key, value }\<close>; the Item Store \<open>this.items\<close> maps keys to values.\<close>

type_synonym item = "key \<times> val"
type_synonym store = "key \<rightharpoonup> val"

datatype error = Error string | APIStatusCodeError string

text \<open>
  An observer registered with \<open>device.on(key, listener)\<close> from outside the device: an
  identity, and whether it throws given the store it reads and the value it is handed.
\<close>

type_synonym observer = "nat \<times> (store \<Rightarrow> val \<Rightarrow> error option)"

text \<open>The callbacks the device hands to \<open>setTimeout\<close>.\<close>

datatype callback = SetConnectedCb "bool option" | ReadAllCb | StopCb | BlackoutCb

text \<open>A pending timer: its handle, the time (ms) it is due, its callback.\<close>

type_synonym timer = "nat \<times> nat \<times> callback"

text \<open>The entries of \<open>this.readAllActions\<close>.\<close>

datatype action = GetAppliance | GetStatus | GetSettings | GetSelectedProgram | GetActiveProgram

text \<open>Calls made on the transport \<open>this.api\<close>, each for the appliance \<open>haId\<close>.\<close>

datatype request =
    ApiGetAppliance string
  | ApiGetStatus string
  | ApiGetSettings string
  | ApiGetSelectedProgram string
  | ApiGetActiveProgram string
  | ApiSetSetting string key val
  | ApiSetSelectedProgram string string "item list"
  | ApiSetActiveProgram string val "item list"
  | ApiStopActiveProgram string
  | ApiSetCommand string string
  | ApiSetActiveProgramOption string key val

text \<open>
  What the device does that can be seen from outside, in order: \<open>Publish k v\<close> is one
  round of the notify loop of \<open>update\<close> (its debug line and its \<open>emit(k, v)\<close>),
  \<open>Notified i k v s\<close> is observer \<open>i\<close> being called with \<open>v\<close> on \<open>k\<close> while the store
  holds \<open>s\<close>, \<open>Failure\<close> is a \<open>logError\<close>, \<open>Request\<close> a transport call,
  \<open>RetryIn n\<close> the debug line announcing a retry in \<open>n\<close> seconds.
\<close>

datatype out =
    Publish key val
  | Notified nat key val store
  | Debug string
  | Failure string error
  | Request request
  | RetryIn nat

section \<open>The device\<close>

record dev =
  haId :: string
  appliance_type :: string
  items :: store
  connected :: "bool option"
  hasPrograms :: bool
  stopEvents :: bool
  readAllActions :: "(nat \<times> action list) option"
  readAllScheduled :: "nat option"
  setConnectedScheduled :: "nat option"
  stopScheduled :: "nat option"
  blackoutScheduled :: "nat option"
  awaiting :: "(nat \<times> action) option"
  timers :: "timer list"
  nextHandle :: nat
  nextArray :: nat
  inferAttached :: bool
  observers :: "key \<Rightarrow> observer list"
  eventsEnded :: bool
  trace :: "out list"

text \<open>
  \<open>connected\<close> is \<open>this.connected\<close> (\<open>None\<close> for \<open>undefined\<close>). \<open>readAllActions\<close>
  is the array of pending reads with the identity of the array object, since \<open>readAll\<close>
  keeps a reference to the array across an \<open>await\<close> while \<open>onDisconnected\<close> and
  \<open>onConnected\<close> replace the field. \<open>awaiting\<close> is \<open>readAll\<close> suspended in
  \<open>await actions[0]()\<close> on a transport call: the array it holds and the action.
  The four \<open>...Scheduled\<close> fields hold timer handles (any handle is truthy).
  \<open>inferAttached\<close> says that the two listeners of \<open>inferPowerState\<close> are still
  registered; they were registered in the constructor, before any observer.
  \<open>eventsEnded\<close> says that the loop of \<open>processEvents\<close> has left the event stream.
\<close>

record api =
  scopes :: "string list"
  readAllRetryDelay :: "nat option"

abbreviation (input) EVENT_DISCONNECT_DELAY :: nat where "EVENT_DISCONNECT_DELAY \<equiv> 3"
abbreviation (input) CONNECTED_RETRY_MIN_DELAY :: nat where "CONNECTED_RETRY_MIN_DELAY \<equiv> 5"
abbreviation (input) CONNECTED_RETRY_MAX_DELAY :: nat where "CONNECTED_RETRY_MAX_DELAY \<equiv> 10 * 60"
abbreviation (input) CONNECTED_RETRY_FACTOR :: nat where "CONNECTED_RETRY_FACTOR \<equiv> 2"
abbreviation (input) POWERSTATE_BLACKOUT :: nat where "POWERSTATE_BLACKOUT \<equiv> 2"
abbreviation (input) MS :: nat where "MS \<equiv> 1000"

definition K_PowerState :: key where
  "K_PowerState = ''BSH.Common.Setting.PowerState''"
definition K_OperationState :: key where
  "K_OperationState = ''BSH.Common.Status.OperationState''"
definition K_connected :: key where
  "K_connected = ''connected''"
definition K_error :: key where
  "K_error = ''error''"
definition K_LocalControlActive :: key where
  "K_LocalControlActive = ''BSH.Common.Status.LocalControlActive''"
definition K_RemoteControlActive :: key where
  "K_RemoteControlActive = ''BSH.Common.Status.RemoteControlActive''"
definition K_RemoteControlStartAllowed :: key where
  "K_RemoteControlStartAllowed = ''BSH.Common.Status.RemoteControlStartAllowed''"
definition K_SelectedProgram :: key where
  "K_SelectedProgram = ''BSH.Common.Root.SelectedProgram''"
definition K_ActiveProgram :: key where
  "K_ActiveProgram = ''BSH.Common.Root.ActiveProgram''"

definition PowerState_On :: val where
  "PowerState_On = Str ''BSH.Common.EnumType.PowerState.On''"
definition PowerState_Standby :: val where
  "PowerState_Standby = Str ''BSH.Common.EnumType.PowerState.Standby''"
definition OperationState_Inactive :: val where
  "OperationState_Inactive = Str ''BSH.Common.EnumType.OperationState.Inactive''"
definition OperationState_Ready :: val where
  "OperationState_Ready = Str ''BSH.Common.EnumType.OperationState.Ready''"
definition OperationState_Run :: val where
  "OperationState_Run = Str ''BSH.Common.EnumType.OperationState.Run''"
definition OperationState_DelayedStart :: val where
  "OperationState_DelayedStart = Str ''BSH.Common.EnumType.OperationState.DelayedStart''"
definition OperationState_Pause :: val where
  "OperationState_Pause = Str ''BSH.Common.EnumType.OperationState.Pause''"
definition OperationState_ActionRequired :: val where
  "OperationState_ActionRequired = Str ''BSH.Common.EnumType.OperationState.ActionRequired''"

definition log :: "out \<Rightarrow> dev \<Rightarrow> dev" where
  "log e d = d\<lparr>trace := trace d @ [e]\<rparr>"

text \<open>\<open>setTimeout(cb, delay)\<close> at time \<open>now\<close>; the handle it returns is \<open>nextHandle d\<close>.\<close>

definition setTimeout :: "callback \<Rightarrow> nat \<Rightarrow> nat \<Rightarrow> dev \<Rightarrow> dev" where
  "setTimeout cb delay now d =
     d\<lparr>timers := timers d @ [(nextHandle d, now + delay, cb)],
       nextHandle := Suc (nextHandle d)\<rparr>"

definition clearTimeout :: "nat option \<Rightarrow> dev \<Rightarrow> dev" where
  "clearTimeout h d =
     (case h of None \<Rightarrow> d
      | Some i \<Rightarrow> d\<lparr>timers := filter (\<lambda>t. fst t \<noteq> i) (timers d)\<rparr>)"

definition getItem :: "dev \<Rightarrow> key \<Rightarrow> val" where
  "getItem d k = (case items d k of None \<Rightarrow> Undefined | Some v \<Rightarrow> v)"

section \<open>update: store, then notify\<close>

text \<open>
  \<open>emit\<close> calls the listeners of a key in registration order; a listener that throws
  ends the \<open>emit\<close> with its exception, and the later listeners of that key are not called.
\<close>

fun notify :: "observer list \<Rightarrow> key \<Rightarrow> val \<Rightarrow> dev \<Rightarrow> dev \<times> error option" where
  "notify [] k v d = (d, None)"
| "notify ((i, throws) # os) k v d =
     (let d' = log (Notified i k v (items d)) d
      in case throws (items d) v of
           Some e \<Rightarrow> (d', Some e)
         | None \<Rightarrow> notify os k v d')"

text \<open>The first listener of \<open>inferPowerState\<close>: any power-state update arms the blackout.\<close>

definition powerStateListener :: "nat \<Rightarrow> dev \<Rightarrow> dev" where
  "powerStateListener now d =
     (let d1 = clearTimeout (blackoutScheduled d) d
      in (setTimeout BlackoutCb (POWERSTATE_BLACKOUT * MS) now d1)
           \<lparr>blackoutScheduled := Some (nextHandle d1)\<rparr>)"

definition emit_powerState :: "val \<Rightarrow> nat \<Rightarrow> dev \<Rightarrow> dev \<times> error option" where
  "emit_powerState v now d =
     (let d1 = (if inferAttached d then powerStateListener now d else d)
      in notify (observers d1 K_PowerState) K_PowerState v d1)"

text \<open>
  \<open>this.update([{ key: 'BSH.Common.Setting.PowerState', value: v }])\<close>, as the second
  listener of \<open>inferPowerState\<close> calls it (\<open>update_single\<close> below shows that it is
  \<open>update\<close> on that one item).
\<close>

definition update_powerState :: "val \<Rightarrow> nat \<Rightarrow> dev \<Rightarrow> dev" where
  "update_powerState v now d =
     (let d1 = d\<lparr>items := (items d)(K_PowerState \<mapsto> v)\<rparr>;
          d2 = log (Publish K_PowerState v) d1;
          (d3, e) = emit_powerState v now d2
      in case e of None \<Rightarrow> d3 | Some err \<Rightarrow> log (Failure ''Update emit'' err) d3)"

definition operationPowerMap :: "val \<Rightarrow> bool option" where
  "operationPowerMap operationState =
     (if operationState = OperationState_Inactive then Some False
      else if operationState = OperationState_Ready then Some True
      else if operationState = OperationState_Run then Some True
      else None)"

text \<open>The second listener of \<open>inferPowerState\<close>, on the operation state.\<close>

definition operationStateListener :: "val \<Rightarrow> nat \<Rightarrow> dev \<Rightarrow> dev" where
  "operationStateListener operationState now d =
     (case operationPowerMap operationState of
        None \<Rightarrow> d
      | Some operationImpliesOn \<Rightarrow>
          (let stateIsOn = (getItem d K_PowerState = PowerState_On)
           in if operationImpliesOn \<and> \<not> stateIsOn then
                (if blackoutScheduled d \<noteq> None
                 then log (Debug ''Operation state implies power is on (ignored)'') d
                 else update_powerState PowerState_On now
                        (log (Debug ''Operation state implies power is on'') d))
              else if \<not> operationImpliesOn \<and> stateIsOn then
                update_powerState PowerState_Standby now
                  (log (Debug ''Operation state implies power is standby or off'') d)
              else d))"

text \<open>
  \<open>this.emit(key, value)\<close>: the listeners of \<open>inferPowerState\<close> first, then the
  observers. An \<open>'error'\<close> event without a listener is thrown by the emitter itself.
\<close>

definition emit :: "key \<Rightarrow> val \<Rightarrow> nat \<Rightarrow> dev \<Rightarrow> dev \<times> error option" where
  "emit k v now d =
     (if k = K_PowerState then emit_powerState v now d
      else if k = K_OperationState then
        (let d1 = (if inferAttached d then operationStateListener v now d else d)
         in notify (observers d1 k) k v d1)
      else if k = K_error \<and> observers d k = [] then (d, Some (Error ''Unhandled error''))
      else notify (observers d k) k v d)"

fun store_items :: "item list \<Rightarrow> dev \<Rightarrow> dev" where
  "store_items [] d = d"
| "store_items ((k, v) # its) d = store_items its (d\<lparr>items := (items d)(k \<mapsto> v)\<rparr>)"

fun notify_items :: "item list \<Rightarrow> nat \<Rightarrow> dev \<Rightarrow> dev" where
  "notify_items [] now d = d"
| "notify_items ((k, v) # its) now d =
     (let d1 = log (Publish k v) d;
          (d2, e) = emit k v now d1;
          d3 = (case e of None \<Rightarrow> d2 | Some err \<Rightarrow> log (Failure ''Update emit'' err) d2)
      in notify_items its now d3)"

definition update :: "item list \<Rightarrow> nat \<Rightarrow> dev \<Rightarrow> dev" where
  "update its now d = notify_items its now (store_items its d)"





section \<open>Connectivity\<close>

text \<open>\<open>onDisconnected\<close>: the pending reads are dropped with the array that held them.\<close>

definition onDisconnected :: "dev \<Rightarrow> dev" where
  "onDisconnected d =
     (let d1 = (case readAllActions d of
                  Some (aid, a # as) \<Rightarrow>
                    log (Debug ''Appliance disconnected; abandoning pending reads'') d
                | _ \<Rightarrow> d)
      in d1\<lparr>readAllActions := None\<rparr>)"

text \<open>
  \<open>setConnectedState(isConnected)\<close>, with \<open>None\<close> for a call without argument. The
  timer has no delay argument; the runtime's minimum delay is taken as 0.
\<close>

definition setConnectedState :: "bool option \<Rightarrow> nat \<Rightarrow> dev \<Rightarrow> dev" where
  "setConnectedState isConnected now d =
     (let d1 = (if isConnected \<noteq> None then d\<lparr>connected := isConnected\<rparr> else d);
          d2 = (if isConnected = Some False then onDisconnected d1 else d1);
          d3 = clearTimeout (setConnectedScheduled d2) d2
      in (setTimeout (SetConnectedCb isConnected) 0 now d3)
           \<lparr>setConnectedScheduled := Some (nextHandle d3)\<rparr>)"

definition onConnected :: "nat \<Rightarrow> dev \<Rightarrow> dev" where
  "onConnected now d =
     (if readAllActions d \<noteq> None then d
      else
        (let d1 = d\<lparr>readAllActions :=
                      Some (nextArray d,
                            [GetAppliance, GetStatus, GetSettings]
                            @ (if hasPrograms d then [GetSelectedProgram, GetActiveProgram]
                               else [])),
                    nextArray := Suc (nextArray d)\<rparr>
         in if readAllScheduled d1 = None then
              (let d2 = log (Debug ''so reading appliance state...'') d1
               in (setTimeout ReadAllCb 0 now d2)\<lparr>readAllScheduled := Some (nextHandle d2)\<rparr>)
            else log (Debug ''Connected, but appliance state read already pending...'') d1))"

text \<open>The callback of the timer set by \<open>setConnectedState(isConnected)\<close>.\<close>

definition setConnectedCallback :: "bool option \<Rightarrow> nat \<Rightarrow> dev \<Rightarrow> dev" where
  "setConnectedCallback isConnected now d =
     (let d1 = (if connected d \<noteq> Some True \<and> getItem d K_connected \<noteq> Bool False
                then update [(K_connected, Bool False)] now d else d)
      in if isConnected \<noteq> Some False then onConnected now d1 else d1)"

section \<open>The capability gate\<close>

definition requireConnected :: "dev \<Rightarrow> error + unit" where
  "requireConnected d =
     (if connected d \<noteq> Some True then Inl (Error ''The appliance is offline'') else Inr ())"

definition requireIdentify :: "api \<Rightarrow> error + unit" where
  "requireIdentify a =
     (if ''IdentifyAppliance'' \<notin> set (scopes a)
      then Inl (Error ''IdentifyAppliance scope has not been authorised'') else Inr ())"

definition hasScope :: "api \<Rightarrow> dev \<Rightarrow> string \<Rightarrow> bool" where
  "hasScope a d scope =
     (scope \<in> set (scopes a) \<or> (appliance_type d @ ''-'' @ scope) \<in> set (scopes a))"

definition requireMonitor :: "api \<Rightarrow> dev \<Rightarrow> error + unit" where
  "requireMonitor a d =
     (if \<not> hasScope a d ''Monitor'' then Inl (Error ''Monitor scope has not been authorised'')
      else requireConnected d)"

definition requireSettings :: "api \<Rightarrow> dev \<Rightarrow> error + unit" where
  "requireSettings a d =
     (if \<not> hasScope a d ''Settings'' then Inl (Error ''Settings scope has not been authorised'')
      else requireConnected d)"

definition requireControl :: "api \<Rightarrow> dev \<Rightarrow> error + unit" where
  "requireControl a d =
     (if \<not> hasScope a d ''Control'' then Inl (Error ''Control scope has not been authorised'')
      else requireConnected d)"

definition requireRemoteControl :: "dev \<Rightarrow> error + unit" where
  "requireRemoteControl d =
     (if truthy (getItem d K_LocalControlActive)
      then Inl (Error ''Appliance is being manually controlled locally'')
      else if getItem d K_RemoteControlActive = Bool False
      then Inl (Error ''Remote control not enabled on the appliance'')
      else Inr ())"

definition requireRemoteStart :: "dev \<Rightarrow> error + unit" where
  "requireRemoteStart d =
     (case requireRemoteControl d of
        Inl e \<Rightarrow> Inl e
      | Inr u \<Rightarrow>
          if getItem d K_RemoteControlStartAllowed = Bool False
          then Inl (Error ''Remote start not enabled on the appliance'')
          else Inr ())"

text \<open>Two checks in a row: the second is made only when the first passes.\<close>

definition andThen :: "error + unit \<Rightarrow> error + unit \<Rightarrow> error + unit" where
  "andThen c1 c2 = (case c1 of Inl e \<Rightarrow> Inl e | Inr u \<Rightarrow> c2)"

text \<open>
  An asynchronous method up to its transport call: it threw (the error is logged by
  \<open>logError\<close> and thrown on), it returned without calling the transport, or it is
  suspended in the \<open>await\<close> of the transport call it made.
\<close>

datatype outcome = Threw error dev | Returned dev | Suspended dev

definition gated :: "string \<Rightarrow> error + unit \<Rightarrow> request \<Rightarrow> dev \<Rightarrow> outcome" where
  "gated what checks req d =
     (case checks of
        Inl e \<Rightarrow> Threw e (log (Failure what e) d)
      | Inr u \<Rightarrow> Suspended (log (Request req) d))"

section \<open>Reading the appliance state\<close>

text \<open>What the transport answers to a read: a failure, nothing, or the data read.\<close>

datatype response =
    Failed error
  | Empty
  | Appliance "bool option"
  | Items "item list"
  | Program val "item list"

definition inactiveStates :: "val list" where
  "inactiveStates = [OperationState_Inactive, OperationState_Ready]"

text \<open>
  The five reads of \<open>readAllActions\<close> up to their transport call: \<open>getAppliance\<close>,
  \<open>getStatus\<close>, \<open>getSettings\<close>, \<open>getSelectedProgram\<close>, \<open>getActiveProgram\<close>.
\<close>

fun start_action :: "action \<Rightarrow> api \<Rightarrow> dev \<Rightarrow> outcome" where
  "start_action GetAppliance a d =
     gated ''GET appliance'' (requireIdentify a) (ApiGetAppliance (haId d)) d"
| "start_action GetStatus a d =
     gated ''GET status'' (requireMonitor a d) (ApiGetStatus (haId d)) d"
| "start_action GetSettings a d =
     gated ''GET settings'' (requireSettings a d) (ApiGetSettings (haId d)) d"
| "start_action GetSelectedProgram a d =
     gated ''GET selected program'' (requireMonitor a d) (ApiGetSelectedProgram (haId d)) d"
| "start_action GetActiveProgram a d =
     (if getItem d K_OperationState \<notin> set inactiveStates
      then gated ''GET active program'' (requireMonitor a d) (ApiGetActiveProgram (haId d)) d
      else Returned (log (Debug ''Ignoring GET active program'') d))"

definition failed :: "string \<Rightarrow> error \<Rightarrow> dev \<Rightarrow> error \<times> dev + dev" where
  "failed what e d = Inl (e, log (Failure what e) d)"

text \<open>
  The same five reads from the answer of the transport on: \<open>Inl\<close> when the read throws,
  \<open>Inr\<close> when it returns. An answer of another read's kind counts as no answer.
\<close>

fun finish_action :: "action \<Rightarrow> response \<Rightarrow> nat \<Rightarrow> dev \<Rightarrow> error \<times> dev + dev" where
  "finish_action GetAppliance r now d =
     (case r of
        Appliance c \<Rightarrow> Inr (setConnectedState c now d)
      | Failed e \<Rightarrow> failed ''GET appliance'' e d
      | _ \<Rightarrow> failed ''GET appliance'' (Error ''Empty response'') d)"
| "finish_action GetStatus r now d =
     (case r of
        Items status \<Rightarrow> Inr (update status now d)
      | Failed e \<Rightarrow> failed ''GET status'' e d
      | _ \<Rightarrow> failed ''GET status'' (Error ''Empty response'') d)"
| "finish_action GetSettings r now d =
     (case r of
        Items settings \<Rightarrow> Inr (update settings now d)
      | Failed e \<Rightarrow> failed ''GET settings'' e d
      | _ \<Rightarrow> failed ''GET settings'' (Error ''Empty response'') d)"
| "finish_action GetSelectedProgram r now d =
     (case r of
        Program pkey options \<Rightarrow>
          (let d1 = update [(K_SelectedProgram, pkey)] now d
           in Inr (if getItem d1 K_OperationState = OperationState_Ready
                   then update options now d1 else d1))
      | Failed e \<Rightarrow>
          if e = APIStatusCodeError ''SDK.Error.NoProgramSelected'' then Inr d
          else failed ''GET selected program'' e d
      | _ \<Rightarrow> failed ''GET selected program'' (Error ''Empty response'') d)"
| "finish_action GetActiveProgram r now d =
     (case r of
        Program pkey options \<Rightarrow>
          Inr (update options now (update [(K_ActiveProgram, pkey)] now d))
      | Failed e \<Rightarrow>
          if e = APIStatusCodeError ''SDK.Error.NoProgramActive'' then Inr d
          else failed ''GET active program'' e d
      | _ \<Rightarrow> failed ''GET active program'' (Error ''Empty response'') d)"

text \<open>
  \<open>actions.shift()\<close> on the array \<open>readAll\<close> took before the \<open>await\<close>: it shortens
  \<open>this.readAllActions\<close> only while the field still holds that very array.
\<close>

definition shift :: "nat \<Rightarrow> dev \<Rightarrow> dev" where
  "shift aid d =
     (case readAllActions d of
        Some (aid', as) \<Rightarrow>
          if aid' = aid then d\<lparr>readAllActions := Some (aid, tl as)\<rparr> else d
      | None \<Rightarrow> d)"

text \<open>The \<open>catch\<close> of \<open>readAll\<close>. The delay counter is a property of the transport object.\<close>

definition readAll_catch :: "error \<Rightarrow> nat \<Rightarrow> api \<Rightarrow> dev \<Rightarrow> api \<times> dev" where
  "readAll_catch err now a d =
     (if connected d = Some True then
        (let delay = (case readAllRetryDelay a of
                        Some n \<Rightarrow>
                          if n \<noteq> 0 then min (n * CONNECTED_RETRY_FACTOR) CONNECTED_RETRY_MAX_DELAY
                          else CONNECTED_RETRY_MIN_DELAY
                      | None \<Rightarrow> CONNECTED_RETRY_MIN_DELAY);
             d1 = log (Failure ''Reading appliance state (will retry)'' err) d;
             d2 = log (RetryIn delay) d1
         in (a\<lparr>readAllRetryDelay := Some delay\<rparr>,
             (setTimeout ReadAllCb (delay * MS) now d2)
               \<lparr>readAllScheduled := Some (nextHandle d2)\<rparr>))
      else
        (a, (log (Debug ''Ignoring appliance state read due to disconnection'') d)
              \<lparr>readAllScheduled := None\<rparr>))"

text \<open>\<open>readAll\<close> after its loop: the reads were all made, or they were abandoned.\<close>

definition readAll_finish :: "nat \<Rightarrow> api \<Rightarrow> dev \<Rightarrow> api \<times> dev" where
  "readAll_finish now a d =
     (let d1 = d\<lparr>readAllScheduled := None\<rparr>
      in if readAllActions d1 \<noteq> None then
           (let d2 = log (Debug ''Successfully read all appliance state'') d1
            in (a\<lparr>readAllRetryDelay := None\<rparr>,
                if connected d2 = Some True \<and> \<not> truthy (getItem d2 K_connected)
                then update [(K_connected, Bool True)] now d2 else d2))
         else (a, log (Debug ''Ignoring appliance state read due to disconnection'') d1))"

lemma start_action_Returned:
  "start_action act a d = Returned d' \<Longrightarrow> readAllActions d' = readAllActions d"
  by (cases act) (auto simp: gated_def log_def split: sum.splits if_splits)

text \<open>
  The loop of \<open>readAll\<close>, from its head to the next \<open>await\<close> of a transport call, to the
  \<open>catch\<close>, or to the end.
\<close>

function readAll :: "nat \<Rightarrow> api \<Rightarrow> dev \<Rightarrow> api \<times> dev" where
  "readAll now a d =
     (case readAllActions d of
        None \<Rightarrow> readAll_finish now a d
      | Some (aid, []) \<Rightarrow> readAll_finish now a d
      | Some (aid, act # rest) \<Rightarrow>
          (case start_action act a d of
             Threw e d' \<Rightarrow> readAll_catch e now a d'
           | Suspended d' \<Rightarrow> (a, d'\<lparr>awaiting := Some (aid, act)\<rparr>)
           | Returned d' \<Rightarrow> readAll now a (shift aid d')))"
  by pat_completeness auto
termination
proof (relation "measure (\<lambda>(now, a, d). case readAllActions d of
                                          None \<Rightarrow> 0 | Some (aid, as) \<Rightarrow> length as)")
  show "wf (measure (\<lambda>(now, a, d). case readAllActions d of
                                     None \<Rightarrow> 0 | Some (aid, as) \<Rightarrow> length as))"
    by simp
next
  fix now :: nat and a :: api and d :: dev and x2 :: "nat \<times> action list" and aid as act rest d'
  assume "readAllActions d = Some x2" "(aid, as) = x2" "as = act # rest"
    "start_action act a d = Returned d'"
  then show "((now, a, shift aid d'), (now, a, d))
       \<in> measure (\<lambda>(now, a, d). case readAllActions d of
                                  None \<Rightarrow> 0 | Some (aid, as) \<Rightarrow> length as)"
    using start_action_Returned[of act a d d'] by (auto simp: shift_def)
qed

text \<open>
  The transport answers the call \<open>readAll\<close> is suspended on: the read finishes, and
  \<open>readAll\<close> goes on after its \<open>await\<close>.
\<close>

definition resume :: "response \<Rightarrow> nat \<Rightarrow> api \<Rightarrow> dev \<Rightarrow> api \<times> dev" where
  "resume r now a d =
     (case awaiting d of
        None \<Rightarrow> (a, d)
      | Some (aid, act) \<Rightarrow>
          (case finish_action act r now (d\<lparr>awaiting := None\<rparr>) of
             Inl (e, d') \<Rightarrow> readAll_catch e now a d'
           | Inr d' \<Rightarrow> readAll now a (shift aid d')))"

declare readAll.simps [simp del]

section \<open>Events and timers\<close>

text \<open>An event of the stream: its tag, \<open>event.err\<close> for \<open>STOP\<close>, its items where it has some.\<close>

datatype event =
    START | STOP bool | PAIRED | DEPAIRED | CONNECTED | DISCONNECTED
  | STATUS "item list" | EVENT "item list" | NOTIFY "item list"
  | Unsupported string

definition eventListener :: "event \<Rightarrow> nat \<Rightarrow> dev \<Rightarrow> dev" where
  "eventListener ev now d =
     (let d0 = log (Debug ''Event'') d
      in case ev of
           START \<Rightarrow> setConnectedState None now (clearTimeout (stopScheduled d0) d0)
         | STOP err \<Rightarrow>
             (setTimeout StopCb (if err then 0 else EVENT_DISCONNECT_DELAY * MS) now d0)
               \<lparr>stopScheduled := Some (nextHandle d0)\<rparr>
         | PAIRED \<Rightarrow>
             setConnectedState None now
               (log (Debug ''Appliance restored to Home Connect account'') d0)
         | DEPAIRED \<Rightarrow>
             setConnectedState (Some False) now
               (log (Debug ''Appliance removed from Home Connect account'') d0)
         | CONNECTED \<Rightarrow>
             setConnectedState (Some True) now
               (log (Debug ''Appliance is now connected to Home Connect servers'') d0)
         | DISCONNECTED \<Rightarrow>
             setConnectedState (Some False) now
               (log (Debug ''Appliance lost connection to Home Connect servers'') d0)
         | STATUS its \<Rightarrow> update its now d0
         | EVENT its \<Rightarrow> update its now d0
         | NOTIFY its \<Rightarrow> update its now d0
         | Unsupported t \<Rightarrow>
             log (Failure ''Event stream'' (Error (''Unsupported type: '' @ t))) d0)"

text \<open>
  One round of the loop of \<open>processEvents\<close>: the event is handled, and the loop leaves
  the stream when \<open>stopEvents\<close> is set by then.
\<close>

definition processEvent :: "event \<Rightarrow> nat \<Rightarrow> dev \<Rightarrow> dev" where
  "processEvent ev now d =
     (if eventsEnded d then d
      else (let d1 = eventListener ev now d
            in if stopEvents d1 then d1\<lparr>eventsEnded := True\<rparr> else d1))"

definition run_callback :: "callback \<Rightarrow> nat \<Rightarrow> api \<Rightarrow> dev \<Rightarrow> api \<times> dev" where
  "run_callback cb now a d =
     (case cb of
        SetConnectedCb c \<Rightarrow> (a, setConnectedCallback c now d)
      | ReadAllCb \<Rightarrow> readAll now a d
      | StopCb \<Rightarrow>
          (a, setConnectedState (Some False) now
                (log (Debug ''Events may have been missed; treating appliance as disconnected'') d))
      | BlackoutCb \<Rightarrow> (a, d\<lparr>blackoutScheduled := None\<rparr>))"

text \<open>
  The runtime runs the timer with handle \<open>h\<close> at time \<open>now\<close>: nothing happens when no
  such timer is pending or when it is not due yet; otherwise the timer is spent and its
  callback runs.
\<close>

definition fire :: "nat \<Rightarrow> nat \<Rightarrow> api \<Rightarrow> dev \<Rightarrow> api \<times> dev" where
  "fire h now a d =
     (case find (\<lambda>t. fst t = h) (timers d) of
        None \<Rightarrow> (a, d)
      | Some (h', due, cb) \<Rightarrow>
          if now < due then (a, d)
          else run_callback cb now a (d\<lparr>timers := filter (\<lambda>t. fst t \<noteq> h) (timers d)\<rparr>))"

section \<open>Construction and teardown\<close>

text \<open>
  \<open>new HomeConnectDevice(log, api, ha)\<close>: the fields of \<open>ha\<close> are copied onto the device,
  among them \<open>haId\<close>, \<open>type\<close> and \<open>connected\<close>.
\<close>

definition new_device :: "string \<Rightarrow> string \<Rightarrow> bool option \<Rightarrow> nat \<Rightarrow> dev" where
  "new_device ha_id ha_type ha_connected now =
     (setConnectedState ha_connected now
        \<lparr>haId = ha_id, appliance_type = ha_type, items = Map.empty,
         connected = ha_connected, hasPrograms = False, stopEvents = False,
         readAllActions = None, readAllScheduled = None, setConnectedScheduled = None,
         stopScheduled = None, blackoutScheduled = None, awaiting = None,
         timers = [], nextHandle = 0, nextArray = 0, inferAttached = False,
         observers = (\<lambda>k. []), eventsEnded = False, trace = []\<rparr>)
       \<lparr>inferAttached := True\<rparr>"

definition on :: "key \<Rightarrow> observer \<Rightarrow> dev \<Rightarrow> dev" where
  "on k ob d = d\<lparr>observers := (observers d)(k := observers d k @ [ob])\<rparr>"

definition pollPrograms :: "bool \<Rightarrow> dev \<Rightarrow> dev" where
  "pollPrograms enable d = d\<lparr>hasPrograms := enable\<rparr>"

definition stop :: "dev \<Rightarrow> dev" where
  "stop d = d\<lparr>stopEvents := True\<rparr>"

definition removeAllListeners :: "dev \<Rightarrow> dev" where
  "removeAllListeners d = d\<lparr>observers := (\<lambda>k. []), inferAttached := False\<rparr>"

text \<open>\<open>ApplianceGeneric.unregister\<close>.\<close>

definition unregister :: "dev \<Rightarrow> dev" where
  "unregister d = removeAllListeners (stop d)"

section \<open>Mutating operations, up to their transport call\<close>

definition setSetting :: "key \<Rightarrow> val \<Rightarrow> api \<Rightarrow> dev \<Rightarrow> outcome" where
  "setSetting settingKey v a d =
     gated ''SET setting'' (andThen (requireSettings a d) (requireRemoteControl d))
       (ApiSetSetting (haId d) settingKey v) d"

definition setSelectedProgram :: "string \<Rightarrow> item list \<Rightarrow> api \<Rightarrow> dev \<Rightarrow> outcome" where
  "setSelectedProgram programKey options a d =
     gated ''SET selected program'' (andThen (requireControl a d) (requireRemoteControl d))
       (ApiSetSelectedProgram (haId d) programKey options) d"

text \<open>\<open>startProgram\<close>: \<open>None\<close> for a call without program key.\<close>

definition startProgram :: "string option \<Rightarrow> item list \<Rightarrow> api \<Rightarrow> dev \<Rightarrow> outcome" where
  "startProgram programKey options a d =
     gated ''START active program'' (andThen (requireControl a d) (requireRemoteStart d))
       (ApiSetActiveProgram (haId d)
          (case programKey of
             None \<Rightarrow> getItem d K_SelectedProgram
           | Some p \<Rightarrow> if p = [] then getItem d K_SelectedProgram else Str p)
          options) d"

definition activeStates :: "val list" where
  "activeStates = [OperationState_DelayedStart, OperationState_Run, OperationState_Pause,
                   OperationState_ActionRequired]"

definition stopProgram :: "api \<Rightarrow> dev \<Rightarrow> outcome" where
  "stopProgram a d =
     (if getItem d K_OperationState \<in> set activeStates
      then gated ''STOP active program'' (andThen (requireControl a d) (requireRemoteControl d))
             (ApiStopActiveProgram (haId d)) d
      else Returned (log (Debug ''Ignoring STOP active program'') d))"

definition pauseProgram :: "bool \<Rightarrow> api \<Rightarrow> dev \<Rightarrow> outcome" where
  "pauseProgram pause a d =
     gated ''COMMAND'' (andThen (requireControl a d) (requireRemoteControl d))
       (ApiSetCommand (haId d)
          (if pause then ''BSH.Common.Command.PauseProgram''
           else ''BSH.Common.Command.ResumeProgram'')) d"

definition openDoor :: "bool \<Rightarrow> api \<Rightarrow> dev \<Rightarrow> outcome" where
  "openDoor fully a d =
     gated ''COMMAND'' (requireControl a d)
       (ApiSetCommand (haId d)
          (if fully then ''BSH.Common.Command.OpenDoor''
           else ''BSH.Common.Command.PartlyOpenDoor'')) d"

definition setActiveProgramOption :: "key \<Rightarrow> val \<Rightarrow> api \<Rightarrow> dev \<Rightarrow> outcome" where
  "setActiveProgramOption optionKey v a d =
     gated ''SET option'' (andThen (requireControl a d) (requireRemoteControl d))
       (ApiSetActiveProgramOption (haId d) optionKey v) d"

section \<open>Properties of update\<close>

lemmas key_defs = K_PowerState_def K_OperationState_def K_error_def K_connected_def
  K_LocalControlActive_def K_RemoteControlActive_def K_RemoteControlStartAllowed_def
  K_SelectedProgram_def K_ActiveProgram_def

lemmas val_defs = PowerState_On_def PowerState_Standby_def OperationState_Inactive_def
  OperationState_Ready_def OperationState_Run_def OperationState_DelayedStart_def
  OperationState_Pause_def OperationState_ActionRequired_def



fun batch_publish :: "out \<Rightarrow> bool" where
  "batch_publish (Publish k v) = (k \<noteq> K_PowerState)"
| "batch_publish (Notified i k v s) = False"
| "batch_publish (Debug m) = False"
| "batch_publish (Failure m e) = False"
| "batch_publish (Request r) = False"
| "batch_publish (RetryIn n) = False"


lemma notify_ext:
  "\<exists>tr e. notify os k v d = (d\<lparr>trace := trace d @ tr\<rparr>, e) \<and>
          (\<forall>x\<in>set tr. \<exists>i. x = Notified i k v (items d))"
proof (induction os arbitrary: d)
  case Nil
  show ?case by (rule exI[of _ "[]"]) simp
next
  case (Cons o1 os)
  obtain i th where o1: "o1 = (i, th)" by (cases o1)
  let ?d' = "log (Notified i k v (items d)) d"
  from Cons.IH[of ?d'] obtain tr e where
    h: "notify os k v ?d' = (?d'\<lparr>trace := trace ?d' @ tr\<rparr>, e)"
       "\<forall>x\<in>set tr. \<exists>i. x = Notified i k v (items ?d')" by blast
  show ?case
  proof (cases "th (items d) v")
    case None
    then have "notify (o1 # os) k v d = (d\<lparr>trace := trace d @ (Notified i k v (items d) # tr)\<rparr>, e)"
      using h(1) by (simp add: o1 log_def)
    moreover have "\<forall>x\<in>set (Notified i k v (items d) # tr). \<exists>i. x = Notified i k v (items d)"
      using h(2) by (auto simp: log_def)
    ultimately show ?thesis by blast
  next
    case (Some err)
    then have "notify (o1 # os) k v d = (d\<lparr>trace := trace d @ [Notified i k v (items d)]\<rparr>, Some err)"
      by (simp add: o1 log_def)
    then show ?thesis by fastforce
  qed
qed















lemma filter_batch_publish:
  "filter batch_publish (map (\<lambda>(k, v). Publish k v) its)
   = map (\<lambda>(k, v). Publish k v) (filter (\<lambda>(k, v). k \<noteq> K_PowerState) its)"
  by (induction its) auto

lemma update_single: "update [(K_PowerState, v)] now d = update_powerState v now d"
  by (simp add: update_def emit_def update_powerState_def Let_def log_def
           split: prod.splits option.splits)

text \<open>
  What \<open>emit\<close> does for the observers of a key, told from the store \<open>s\<close> they read:
  \<open>called os k v s\<close> are the calls made, in registration order, up to and including the
  first observer that throws; \<open>thrown os s v\<close> is the exception of that observer.
  \<open>raised\<close> adds the exception of the emitter itself for an \<open>'error'\<close> event nobody
  listens to. \<open>caught e\<close> is what the \<open>catch\<close> of \<open>update\<close> logs. \<open>notified\<close> is the calls
  followed by that log entry, and \<open>plain_segment\<close> is all that \<open>update\<close> writes for one
  item when the power-state inference stays out of it.
\<close>

fun called :: "observer list \<Rightarrow> key \<Rightarrow> val \<Rightarrow> store \<Rightarrow> out list" where
  "called [] k v s = []"
| "called ((i, throws) # os) k v s =
     Notified i k v s # (case throws s v of Some e \<Rightarrow> [] | None \<Rightarrow> called os k v s)"

fun thrown :: "observer list \<Rightarrow> store \<Rightarrow> val \<Rightarrow> error option" where
  "thrown [] s v = None"
| "thrown ((i, throws) # os) s v =
     (case throws s v of Some e \<Rightarrow> Some e | None \<Rightarrow> thrown os s v)"







lemma notify_eq:
  "notify os k v d = (d\<lparr>trace := trace d @ called os k v (items d)\<rparr>, thrown os (items d) v)"
proof (induction os arbitrary: d)
  case Nil
  show ?case by simp
next
  case (Cons o1 os)
  obtain i f where o1: "o1 = (i, f)" by (cases o1)
  show ?case using Cons.IH[of "log (Notified i k v (items d)) d"]
    by (simp add: o1 log_def split: option.splits)
qed









text \<open>
  \<open>core d\<close>: the device without its trace and its observers. Nothing \<open>update\<close> computes but
  the trace depends on them.
\<close>

definition core :: "dev \<Rightarrow> dev" where
  "core d = d\<lparr>trace := [], observers := (\<lambda>k. [])\<rparr>"

lemma core_idem [simp]: "core (core d) = core d"
  by (simp add: core_def)

lemma core_fields [simp]:
  "items (core d) = items d" "inferAttached (core d) = inferAttached d"
  "blackoutScheduled (core d) = blackoutScheduled d" "getItem (core d) k = getItem d k"
  by (simp_all add: core_def getItem_def)


lemma core_log [simp]: "core (log e d) = core d"
  by (simp add: core_def log_def)

lemma core_notify [simp]: "core (fst (notify os k v d)) = core d"
  by (simp add: notify_eq core_def)






















text \<open>An observer that never throws, and a device with two such observers.\<close>

definition quiet :: "store \<Rightarrow> val \<Rightarrow> error option" where
  "quiet s v = None"


lemmas engine_defs = new_device_def on_def setConnectedState_def setTimeout_def clearTimeout_def
  onDisconnected_def onConnected_def setConnectedCallback_def log_def update_def emit_def
  emit_powerState_def powerStateListener_def update_powerState_def operationStateListener_def
  operationPowerMap_def getItem_def eventListener_def processEvent_def run_callback_def fire_def
  readAll_catch_def readAll_finish_def resume_def shift_def gated_def failed_def
  requireConnected_def requireIdentify_def requireMonitor_def requireSettings_def
  requireControl_def requireRemoteControl_def requireRemoteStart_def hasScope_def andThen_def
  inactiveStates_def activeStates_def stop_def removeAllListeners_def unregister_def
  readAll.simps Let_def

lemmas dev_defs = engine_defs key_defs val_defs quiet_def

definition demo_api :: api where
  "demo_api = \<lparr>scopes = [''IdentifyAppliance'', ''Monitor'', ''Settings'', ''Control''],
               readAllRetryDelay = None\<rparr>"










section \<open>Scenarios on a concrete appliance\<close>

text \<open>
  A power-state update at time 0 arms the blackout until time 2000; the operation state
  \<open>Inactive\<close> arrives at time 500.
\<close>

definition power_on_then_inactive :: dev where
  "power_on_then_inactive =
     eventListener (STATUS [(K_OperationState, OperationState_Inactive)]) 500
       (eventListener (NOTIFY [(K_PowerState, PowerState_On)]) 0
          (new_device ''ha1'' ''Oven'' (Some True) 0))"

text \<open>The power state was updated to standby at time 0, the operation state \<open>Run\<close> arrives at 500.\<close>

definition standby_then_run :: dev where
  "standby_then_run =
     eventListener (STATUS [(K_OperationState, OperationState_Run)]) 500
       (eventListener (NOTIFY [(K_PowerState, PowerState_Standby)]) 0
          (new_device ''ha1'' ''Oven'' (Some True) 0))"

lemma implied_on_suppressed_in_blackout:
  "blackoutScheduled d \<noteq> None \<Longrightarrow> operationPowerMap st = Some True \<Longrightarrow>
   getItem d K_PowerState \<noteq> PowerState_On \<Longrightarrow>
   operationStateListener st now d
     = log (Debug ''Operation state implies power is on (ignored)'') d"
  by (simp add: operationStateListener_def)

lemma implied_on_published_outside_blackout:
  "blackoutScheduled d = None \<Longrightarrow> operationPowerMap st = Some True \<Longrightarrow>
   getItem d K_PowerState \<noteq> PowerState_On \<Longrightarrow>
   operationStateListener st now d
     = update_powerState PowerState_On now
         (log (Debug ''Operation state implies power is on'') d)"
  by (simp add: operationStateListener_def)

lemma implied_off_published_always:
  "operationPowerMap st = Some False \<Longrightarrow> getItem d K_PowerState = PowerState_On \<Longrightarrow>
   operationStateListener st now d
     = update_powerState PowerState_Standby now
         (log (Debug ''Operation state implies power is standby or off'') d)"
  by (simp add: operationStateListener_def)

text \<open>
  C5. Inside the blackout the implied-on correction is suppressed, the implied-off
  correction is not: with the blackout armed at time 0 by a power-state update to \<open>On\<close>,
  the operation state \<open>Inactive\<close> at time 500 publishes the synthetic \<open>Standby\<close>, while in
  the mirrored run (standby stored, \<open>Run\<close> arriving) nothing is published.
\<close>

theorem blackout_does_not_suppress_implied_off:
  "blackoutScheduled (eventListener (NOTIFY [(K_PowerState, PowerState_On)]) 0
      (new_device ''ha1'' ''Oven'' (Some True) 0)) = Some 1 \<and>
   timers (eventListener (NOTIFY [(K_PowerState, PowerState_On)]) 0
      (new_device ''ha1'' ''Oven'' (Some True) 0))
     = [(0, 0, SetConnectedCb (Some True)), (1, 2000, BlackoutCb)] \<and>
   trace power_on_then_inactive
     = [Debug ''Event'', Publish K_PowerState PowerState_On,
        Debug ''Event'', Publish K_OperationState OperationState_Inactive,
        Debug ''Operation state implies power is standby or off'',
        Publish K_PowerState PowerState_Standby] \<and>
   getItem power_on_then_inactive K_PowerState = PowerState_Standby \<and>
   trace standby_then_run
     = [Debug ''Event'', Publish K_PowerState PowerState_Standby,
        Debug ''Event'', Publish K_OperationState OperationState_Run,
        Debug ''Operation state implies power is on (ignored)'']"
  by (simp add: power_on_then_inactive_def standby_then_run_def dev_defs)

text \<open>Local control is active on the appliance, which is connected.\<close>

definition locally_controlled :: dev where
  "locally_controlled =
     update [(K_LocalControlActive, Bool True)] 0 (new_device ''ha1'' ''Oven'' (Some True) 0)"

text \<open>
  C6. With local control active, \<open>pauseProgram\<close> (like the other mutating operations)
  throws before any transport call, but \<open>openDoor\<close> makes its transport call:
  it checks \<open>requireControl\<close> only.
\<close>

theorem openDoor_ignores_local_control:
  "requireRemoteControl locally_controlled
     = Inl (Error ''Appliance is being manually controlled locally'') \<and>
   openDoor True demo_api locally_controlled
     = Suspended (log (Request (ApiSetCommand ''ha1'' ''BSH.Common.Command.OpenDoor''))
                    locally_controlled) \<and>
   pauseProgram True demo_api locally_controlled
     = Threw (Error ''Appliance is being manually controlled locally'')
         (log (Failure ''COMMAND'' (Error ''Appliance is being manually controlled locally''))
            locally_controlled)"
  by (simp add: locally_controlled_def openDoor_def pauseProgram_def demo_api_def dev_defs)

text \<open>
  A connected appliance whose first read fails: the connectivity evaluation (timer 0)
  starts the reads, \<open>readAll\<close> (timer 1) calls the transport, the call fails at time 100.
\<close>

definition first_failure :: "api \<Rightarrow> string \<Rightarrow> api \<times> dev" where
  "first_failure a ha_id =
     (let d0 = new_device ha_id ''Oven'' (Some True) 0;
          (a1, d1) = fire 0 0 a d0;
          (a2, d2) = fire 1 0 a1 d1
      in resume (Failed (Error ''timeout'')) 100 a2 d2)"

text \<open>
  C7. \<open>unregister\<close> (\<open>stop\<close>, then \<open>removeAllListeners\<close>) leaves every pending timer in
  place. After the failed first read a retry is pending for time 5100; after teardown it
  is still pending, and when it fires \<open>readAll\<close> calls the transport again.
\<close>

theorem teardown_cancels_no_timer:
  "timers (unregister d) = timers d \<and>
   (let (a, d1) = first_failure demo_api ''ha1'';
        (a', d2) = fire 2 5100 a (unregister d1)
    in timers (unregister d1) = [(2, 5100, ReadAllCb)] \<and>
       trace d2 = trace d1 @ [Request (ApiGetAppliance ''ha1'')] \<and>
       awaiting d2 = Some (0, GetAppliance))"
  by (simp add: first_failure_def demo_api_def dev_defs)

text \<open>
  C8. The delay counter is a property of the transport object, which the appliances
  share: after the first read of appliance \<open>ha1\<close> has failed (retry in 5 s), the first
  failure of appliance \<open>ha2\<close> schedules its retry in 10 s; on a transport nobody else
  has used it schedules it in 5 s.
\<close>

theorem retry_delay_shared_between_appliances:
  "(let (a1, dA) = first_failure demo_api ''ha1'';
        (a2, dB) = first_failure a1 ''ha2'';
        (a3, dB') = first_failure demo_api ''ha2''
    in last (trace dA) = RetryIn 5 \<and> readAllRetryDelay a1 = Some 5 \<and>
       last (trace dB) = RetryIn 10 \<and> timers dB = [(2, 10100, ReadAllCb)] \<and>
       last (trace dB') = RetryIn 5 \<and> timers dB' = [(2, 5100, ReadAllCb)])"
  by (simp add: first_failure_def demo_api_def dev_defs)

section \<open>Retrying the reads\<close>

text \<open>The answers of the transport on which a read throws.\<close>

fun rejects :: "action \<Rightarrow> response \<Rightarrow> bool" where
  "rejects GetAppliance r = (case r of Appliance c \<Rightarrow> False | _ \<Rightarrow> True)"
| "rejects GetStatus r = (case r of Items its \<Rightarrow> False | _ \<Rightarrow> True)"
| "rejects GetSettings r = (case r of Items its \<Rightarrow> False | _ \<Rightarrow> True)"
| "rejects GetSelectedProgram r =
     (case r of Program k os \<Rightarrow> False
      | Failed e \<Rightarrow> e \<noteq> APIStatusCodeError ''SDK.Error.NoProgramSelected''
      | _ \<Rightarrow> True)"
| "rejects GetActiveProgram r =
     (case r of Program k os \<Rightarrow> False
      | Failed e \<Rightarrow> e \<noteq> APIStatusCodeError ''SDK.Error.NoProgramActive''
      | _ \<Rightarrow> True)"

lemma rejects_finish:
  "rejects act r \<Longrightarrow> \<exists>e what. finish_action act r now d = Inl (e, log (Failure what e) d)"
  by (cases act; cases r) (auto simp: failed_def)

text \<open>The delay the \<open>catch\<close> of \<open>readAll\<close> computes from the counter.\<close>

definition next_delay :: "nat option \<Rightarrow> nat" where
  "next_delay c = (case c of
       Some n \<Rightarrow> if n \<noteq> 0 then min (n * CONNECTED_RETRY_FACTOR) CONNECTED_RETRY_MAX_DELAY
                 else CONNECTED_RETRY_MIN_DELAY
     | None \<Rightarrow> CONNECTED_RETRY_MIN_DELAY)"

lemma readAll_catch_connected:
  "connected d = Some True \<Longrightarrow>
   readAll_catch e now a d =
     (a\<lparr>readAllRetryDelay := Some (next_delay (readAllRetryDelay a))\<rparr>,
      d\<lparr>trace := trace d @ [Failure ''Reading appliance state (will retry)'' e,
                             RetryIn (next_delay (readAllRetryDelay a))],
        timers := timers d @ [(nextHandle d, now + next_delay (readAllRetryDelay a) * 1000, ReadAllCb)],
        nextHandle := Suc (nextHandle d),
        readAllScheduled := Some (nextHandle d)\<rparr>)"
  by (simp add: readAll_catch_def next_delay_def log_def setTimeout_def Let_def)

text \<open>
  \<open>update\<close> changes the store, the trace and the blackout timer, nothing else of the
  device.
\<close>

definition same_control :: "dev \<Rightarrow> dev \<Rightarrow> bool" where
  "same_control d d' =
     (haId d' = haId d \<and> appliance_type d' = appliance_type d \<and> connected d' = connected d \<and>
      hasPrograms d' = hasPrograms d \<and> stopEvents d' = stopEvents d \<and>
      readAllActions d' = readAllActions d \<and> readAllScheduled d' = readAllScheduled d \<and>
      setConnectedScheduled d' = setConnectedScheduled d \<and> stopScheduled d' = stopScheduled d \<and>
      awaiting d' = awaiting d \<and> nextArray d' = nextArray d \<and>
      inferAttached d' = inferAttached d \<and> observers d' = observers d \<and>
      eventsEnded d' = eventsEnded d)"

lemma same_control_refl [simp]: "same_control d d"
  by (simp add: same_control_def)

lemma same_control_trans: "same_control d d1 \<Longrightarrow> same_control d1 d2 \<Longrightarrow> same_control d d2"
  by (simp add: same_control_def)

lemma same_control_log [simp]: "same_control d (log e d)"
  by (simp add: same_control_def log_def)

lemma same_control_notify: "same_control d (fst (notify os k v d))"
proof -
  obtain tr e where "notify os k v d = (d\<lparr>trace := trace d @ tr\<rparr>, e)"
    using notify_ext by blast
  then show ?thesis by (simp add: same_control_def)
qed

lemma same_control_powerStateListener: "same_control d (powerStateListener now d)"
  by (simp add: same_control_def powerStateListener_def setTimeout_def clearTimeout_def Let_def
      split: option.splits)

lemma same_control_emit_powerState: "same_control d (fst (emit_powerState v now d))"
  unfolding emit_powerState_def Let_def
  by (rule same_control_trans[OF _ same_control_notify])
     (simp add: same_control_powerStateListener)

lemma same_control_update_powerState: "same_control d (update_powerState v now d)"
proof -
  let ?d2 = "log (Publish K_PowerState v) (d\<lparr>items := (items d)(K_PowerState \<mapsto> v)\<rparr>)"
  have a: "same_control d ?d2" by (simp add: same_control_def log_def)
  obtain d3 e where e: "emit_powerState v now ?d2 = (d3, e)" by (cases "emit_powerState v now ?d2")
  have "same_control ?d2 d3" using same_control_emit_powerState[of ?d2 v now] e by simp
  with a have c: "same_control d d3" by (rule same_control_trans)
  then have "same_control d (log (Failure ''Update emit'' err) d3)" for err
    by (rule same_control_trans) simp
  with c show ?thesis using e by (cases e) (simp_all add: update_powerState_def Let_def)
qed

lemma same_control_operationStateListener: "same_control d (operationStateListener v now d)"
proof -
  have "same_control d (update_powerState w now (log (Debug m) d))" for w m
    by (rule same_control_trans[OF same_control_log same_control_update_powerState])
  then show ?thesis
    by (simp add: operationStateListener_def Let_def split: option.splits)
qed

lemma same_control_emit: "same_control d (fst (emit k v now d))"
proof -
  let ?d1 = "if inferAttached d then operationStateListener v now d else d"
  have "same_control d ?d1" by (simp add: same_control_operationStateListener)
  then have "same_control d (fst (notify (observers ?d1 k) k v ?d1))"
    by (rule same_control_trans) (rule same_control_notify)
  then show ?thesis
    by (auto simp: emit_def Let_def same_control_emit_powerState same_control_notify)
qed

lemma same_control_notify_items: "same_control d (notify_items its now d)"
proof (induction its arbitrary: d)
  case Nil
  show ?case by simp
next
  case (Cons it its)
  obtain k v where it: "it = (k, v)" by (cases it)
  let ?d1 = "log (Publish k v) d"
  obtain d2 e where em: "emit k v now ?d1 = (d2, e)" by (cases "emit k v now ?d1")
  let ?d3 = "case e of None \<Rightarrow> d2 | Some err \<Rightarrow> log (Failure ''Update emit'' err) d2"
  have "same_control ?d1 d2" using same_control_emit[of ?d1 k v now] em by simp
  then have "same_control d d2" by (rule same_control_trans[OF same_control_log])
  then have "same_control d ?d3"
    by (cases e) (auto intro: same_control_trans[OF _ same_control_log])
  then have "same_control d (notify_items its now ?d3)"
    by (rule same_control_trans) (rule Cons.IH)
  then show ?case using em by (simp add: it)
qed

lemma same_control_store_items: "same_control d (store_items its d)"
proof (induction its arbitrary: d)
  case Nil
  show ?case by simp
next
  case (Cons it its)
  obtain k v where it: "it = (k, v)" by (cases it)
  have "same_control d (d\<lparr>items := (items d)(k \<mapsto> v)\<rparr>)" by (simp add: same_control_def)
  then show ?case unfolding it store_items.simps
    by (rule same_control_trans) (rule Cons.IH)
qed

lemma same_control_update: "same_control d (update its now d)"
  unfolding update_def
  by (rule same_control_trans[OF same_control_store_items same_control_notify_items])

text \<open>
  \<open>ready\<close>: a connected appliance with reads pending and the timer for \<open>readAll\<close>
  pending, no read in flight; timer handles in use are below the next one.
  \<open>fails a d r\<close>: the read at the head of the queue throws, at its gate or on the
  answer \<open>r\<close>. \<open>retry_round r latency\<close>: the pending \<open>readAll\<close> timer fires when it is
  due, and where \<open>readAll\<close> then waits for the transport, the answer \<open>r\<close> arrives
  \<open>latency\<close> ms later.
\<close>

definition ready :: "dev \<Rightarrow> bool" where
  "ready d =
     (connected d = Some True \<and> awaiting d = None \<and>
      (case readAllActions d of Some (aid, act # rest) \<Rightarrow> True | _ \<Rightarrow> False) \<and>
      (case readAllScheduled d of
         None \<Rightarrow> False
       | Some h \<Rightarrow>
           (case find (\<lambda>t. fst t = h) (timers d) of
              Some (h', due, cb) \<Rightarrow> cb = ReadAllCb | None \<Rightarrow> False)) \<and>
      list_all (\<lambda>t. fst t < nextHandle d) (timers d))"

definition fails :: "api \<Rightarrow> dev \<Rightarrow> response \<Rightarrow> bool" where
  "fails a d r =
     (case readAllActions d of
        Some (aid, act # rest) \<Rightarrow>
          (case start_action act a d of
             Threw e d' \<Rightarrow> True
           | Suspended d' \<Rightarrow> rejects act r
           | Returned d' \<Rightarrow> False)
      | _ \<Rightarrow> False)"

definition retry_round :: "response \<Rightarrow> nat \<Rightarrow> api \<times> dev \<Rightarrow> api \<times> dev" where
  "retry_round r latency s =
     (case readAllScheduled (snd s) of
        None \<Rightarrow> s
      | Some h \<Rightarrow>
          (case find (\<lambda>t. fst t = h) (timers (snd s)) of
             None \<Rightarrow> s
           | Some (h', due, cb) \<Rightarrow>
               (let s1 = fire h due (fst s) (snd s)
                in if awaiting (snd s1) = None then s1
                   else resume r (due + latency) (fst s1) (snd s1))))"

fun retry_rounds :: "(response \<times> nat) list \<Rightarrow> api \<times> dev \<Rightarrow> api \<times> dev" where
  "retry_rounds [] s = s"
| "retry_rounds ((r, latency) # rs) s = retry_rounds rs (retry_round r latency s)"

fun retry_delays :: "out list \<Rightarrow> nat list" where
  "retry_delays [] = []"
| "retry_delays (RetryIn n # tr) = n # retry_delays tr"
| "retry_delays (e # tr) = retry_delays tr"

lemma retry_delays_append [simp]: "retry_delays (xs @ ys) = retry_delays xs @ retry_delays ys"
  by (induction xs rule: retry_delays.induct) auto

definition gate_view :: "dev \<Rightarrow> string \<times> string \<times> bool option \<times> store" where
  "gate_view d = (haId d, appliance_type d, connected d, items d)"

lemma log_eq_iff [simp]: "log e d = log e' d \<longleftrightarrow> e = e'"
proof
  assume "log e d = log e' d"
  then have "trace (log e d) = trace (log e' d)" by simp
  then show "e = e'" by (simp add: log_def)
qed simp

lemma start_action_shape:
  "(\<exists>e w. start_action act a d = Threw e (log (Failure w e) d)) \<or>
   (\<exists>q. start_action act a d = Suspended (log (Request q) d)) \<or>
   (\<exists>m. start_action act a d = Returned (log (Debug m) d))"
  by (cases act) (auto simp: gated_def split: sum.splits)

lemma start_action_cong:
  assumes "gate_view d' = gate_view d" "scopes a' = scopes a"
  shows "(start_action act a d = Threw e (log (Failure w e) d) \<longrightarrow>
            start_action act a' d' = Threw e (log (Failure w e) d')) \<and>
         (start_action act a d = Suspended (log (Request q) d) \<longrightarrow>
            start_action act a' d' = Suspended (log (Request q) d')) \<and>
         (start_action act a d = Returned (log (Debug m) d) \<longrightarrow>
            start_action act a' d' = Returned (log (Debug m) d'))"
  using assms
  by (cases act)
     (auto simp: gate_view_def gated_def requireIdentify_def requireMonitor_def
        requireSettings_def requireConnected_def hasScope_def getItem_def
        split: sum.splits if_splits)

lemma fails_head:
  "fails a d r \<Longrightarrow> \<exists>aid act rest. readAllActions d = Some (aid, act # rest)"
proof (cases "readAllActions d")
  case None
  assume "fails a d r"
  then show ?thesis using None by (simp add: fails_def)
next
  case (Some p)
  assume f: "fails a d r"
  obtain aid as where p: "p = (aid, as)" by (cases p)
  show ?thesis
  proof (cases as)
    case Nil
    then show ?thesis using f Some p by (simp add: fails_def)
  next
    case (Cons act rest)
    then show ?thesis using Some p by simp
  qed
qed

lemma fails_cong:
  assumes "gate_view d' = gate_view d" "scopes a' = scopes a"
    "readAllActions d' = readAllActions d"
  shows "fails a d r \<Longrightarrow> fails a' d' r"
proof -
  assume f: "fails a d r"
  then obtain aid act rest where q: "readAllActions d = Some (aid, act # rest)"
    using fails_head by blast
  from start_action_shape[of act a d] start_action_cong[OF assms(1,2), of act]
  show ?thesis using f q assms(3)
    by (fastforce simp: fails_def)
qed

lemma find_holds: "find P xs = Some x \<Longrightarrow> P x"
  by (induction xs) (auto split: if_splits)

lemma find_fresh:
  "list_all (\<lambda>t. fst t < (n::nat)) xs \<Longrightarrow> find (\<lambda>t. fst t = n) (filter P xs @ [(n, x, c)]) = Some (n, x, c)"
  by (induction xs) auto

lemma list_all_fresh_suc:
  "list_all (\<lambda>t. fst t < n) xs \<Longrightarrow> list_all (\<lambda>t. fst t < Suc n) (filter P xs @ [(n, x, c)])"
  by (induction xs) auto

lemma ready_timer:
  assumes "ready d"
  obtains h due where "readAllScheduled d = Some h"
    "find (\<lambda>t. fst t = h) (timers d) = Some (h, due, ReadAllCb)"
proof -
  from assms obtain h where h: "readAllScheduled d = Some h"
    by (auto simp: ready_def split: option.splits)
  from assms h obtain h' due where f: "find (\<lambda>t. fst t = h) (timers d) = Some (h', due, ReadAllCb)"
    by (auto simp: ready_def split: option.splits)
  then have "h' = h" using find_holds[OF f] by simp
  with h f that show ?thesis by blast
qed

lemma ready_after_catch:
  assumes "ready d" "readAllScheduled d = Some h"
    and d': "d' = d\<lparr>trace := tr',
                    timers := filter (\<lambda>t. fst t \<noteq> h) (timers d) @ [(nextHandle d, t, ReadAllCb)],
                    nextHandle := Suc (nextHandle d),
                    readAllScheduled := Some (nextHandle d)\<rparr>"
  shows "ready d' \<and> gate_view d' = gate_view d \<and> readAllActions d' = readAllActions d"
proof -
  have fr: "list_all (\<lambda>t. fst t < nextHandle d) (timers d)" using assms(1) by (simp add: ready_def)
  show ?thesis
    using assms(1) find_fresh[OF fr] list_all_fresh_suc[OF fr]
    by (simp add: d' ready_def gate_view_def)
qed

lemma retry_round_fails:
  assumes rd: "ready d" and f: "fails a d r"
  shows "\<exists>d' tr. retry_round r lat (a, d)
                  = (a\<lparr>readAllRetryDelay := Some (next_delay (readAllRetryDelay a))\<rparr>, d') \<and>
           ready d' \<and> gate_view d' = gate_view d \<and> readAllActions d' = readAllActions d \<and>
           trace d' = trace d @ tr \<and> retry_delays tr = [next_delay (readAllRetryDelay a)]"
proof -
  from rd obtain h due where hs: "readAllScheduled d = Some h"
    "find (\<lambda>t. fst t = h) (timers d) = Some (h, due, ReadAllCb)" by (rule ready_timer)
  from f obtain aid act rest where q: "readAllActions d = Some (aid, act # rest)"
    using fails_head by blast
  have conn: "connected d = Some True" and aw: "awaiting d = None"
    using rd by (simp_all add: ready_def)
  let ?d0 = "d\<lparr>timers := filter (\<lambda>t. fst t \<noteq> h) (timers d)\<rparr>"
  let ?c = "next_delay (readAllRetryDelay a)"
  have fire: "fire h due a d = readAll due a ?d0"
    by (simp add: fire_def hs run_callback_def)
  have f0: "fails a ?d0 r"
    by (rule fails_cong[OF _ _ _ f]) (simp_all add: gate_view_def)
  have q0: "readAllActions ?d0 = Some (aid, act # rest)" using q by simp
  from start_action_shape[of act a ?d0]
  consider (threw) e w where "start_action act a ?d0 = Threw e (log (Failure w e) ?d0)"
    | (susp) rq where "start_action act a ?d0 = Suspended (log (Request rq) ?d0)"
    | (ret) m where "start_action act a ?d0 = Returned (log (Debug m) ?d0)"
    by blast
  then show ?thesis
  proof cases
    case threw
    let ?d1 = "log (Failure w e) ?d0"
    have "readAll due a ?d0 = readAll_catch e due a ?d1"
      by (subst readAll.simps) (simp add: q0 threw)
    also have "\<dots> = (a\<lparr>readAllRetryDelay := Some ?c\<rparr>,
        ?d1\<lparr>trace := trace ?d1 @ [Failure ''Reading appliance state (will retry)'' e, RetryIn ?c],
          timers := timers ?d1 @ [(nextHandle ?d1, due + ?c * 1000, ReadAllCb)],
          nextHandle := Suc (nextHandle ?d1),
          readAllScheduled := Some (nextHandle ?d1)\<rparr>)"
      by (rule readAll_catch_connected) (simp add: conn log_def)
    finally have r1: "fire h due a d = (a\<lparr>readAllRetryDelay := Some ?c\<rparr>,
        d\<lparr>trace := trace d @ [Failure w e, Failure ''Reading appliance state (will retry)'' e, RetryIn ?c],
          timers := filter (\<lambda>t. fst t \<noteq> h) (timers d) @ [(nextHandle d, due + ?c * 1000, ReadAllCb)],
          nextHandle := Suc (nextHandle d),
          readAllScheduled := Some (nextHandle d)\<rparr>)" (is "_ = (_, ?d')")
      using fire by (simp add: log_def)
    have rr: "retry_round r lat (a, d) = (a\<lparr>readAllRetryDelay := Some ?c\<rparr>, ?d')"
      by (simp add: retry_round_def hs r1 aw)
    have "ready ?d' \<and> gate_view ?d' = gate_view d \<and> readAllActions ?d' = readAllActions d"
      by (rule ready_after_catch[OF rd hs(1)]) simp
    moreover have "trace ?d' = trace d @ [Failure w e, Failure ''Reading appliance state (will retry)'' e, RetryIn ?c]"
      by simp
    moreover have "retry_delays [Failure w e, Failure ''Reading appliance state (will retry)'' e, RetryIn ?c] = [?c]"
      by simp
    ultimately show ?thesis using rr by blast
  next
    case susp
    let ?d1 = "(log (Request rq) ?d0)\<lparr>awaiting := Some (aid, act)\<rparr>"
    have ra: "readAll due a ?d0 = (a, ?d1)"
      by (subst readAll.simps) (simp add: q0 susp)
    have rej: "rejects act r" using f0 q0 susp by (simp add: fails_def)
    let ?d2 = "?d1\<lparr>awaiting := None\<rparr>"
    from rejects_finish[OF rej, of "due + lat" ?d2] obtain e w where
      fin: "finish_action act r (due + lat) ?d2 = Inl (e, log (Failure w e) ?d2)" by blast
    let ?d3 = "log (Failure w e) ?d2"
    have "resume r (due + lat) a ?d1 = readAll_catch e (due + lat) a ?d3"
      using fin by (simp add: resume_def log_def)
    also have "\<dots> = (a\<lparr>readAllRetryDelay := Some ?c\<rparr>,
        ?d3\<lparr>trace := trace ?d3 @ [Failure ''Reading appliance state (will retry)'' e, RetryIn ?c],
          timers := timers ?d3 @ [(nextHandle ?d3, due + lat + ?c * 1000, ReadAllCb)],
          nextHandle := Suc (nextHandle ?d3),
          readAllScheduled := Some (nextHandle ?d3)\<rparr>)"
      by (rule readAll_catch_connected) (simp add: conn log_def)
    finally have r1: "resume r (due + lat) a ?d1 = (a\<lparr>readAllRetryDelay := Some ?c\<rparr>,
        d\<lparr>trace := trace d @ [Request rq, Failure w e, Failure ''Reading appliance state (will retry)'' e, RetryIn ?c],
          timers := filter (\<lambda>t. fst t \<noteq> h) (timers d) @ [(nextHandle d, due + lat + ?c * 1000, ReadAllCb)],
          nextHandle := Suc (nextHandle d),
          readAllScheduled := Some (nextHandle d)\<rparr>)" (is "_ = (_, ?d')")
      using aw by (simp add: log_def)
    have rr: "retry_round r lat (a, d) = (a\<lparr>readAllRetryDelay := Some ?c\<rparr>, ?d')"
      using r1 by (simp add: retry_round_def hs fire ra log_def)
    have "ready ?d' \<and> gate_view ?d' = gate_view d \<and> readAllActions ?d' = readAllActions d"
      by (rule ready_after_catch[OF rd hs(1)]) simp
    moreover have "trace ?d' = trace d @ [Request rq, Failure w e, Failure ''Reading appliance state (will retry)'' e, RetryIn ?c]"
      by simp
    moreover have "retry_delays [Request rq, Failure w e, Failure ''Reading appliance state (will retry)'' e, RetryIn ?c] = [?c]"
      by simp
    ultimately show ?thesis using rr by blast
  next
    case ret
    then show ?thesis using f0 q0 by (simp add: fails_def)
  qed
qed

text \<open>The spec's delay sequence: minimum times factor to the \<open>i\<close>, capped at the maximum.\<close>

definition backoff :: "nat \<Rightarrow> nat" where
  "backoff i = min (CONNECTED_RETRY_MIN_DELAY * CONNECTED_RETRY_FACTOR ^ i) CONNECTED_RETRY_MAX_DELAY"

lemma next_delay_None: "next_delay None = backoff 0"
  by (simp add: next_delay_def backoff_def)

lemma next_delay_backoff: "next_delay (Some (backoff k)) = backoff (Suc k)"
  by (simp add: next_delay_def backoff_def min_def)

lemma upt_shift: "[k..<k + Suc n] = k # [Suc k..<Suc k + n]"
  by (simp add: upt_conv_Cons del: upt_Suc)

lemma retry_rounds_general:
  "ready d \<Longrightarrow> list_all (\<lambda>(r, lat). fails a d r) rs \<Longrightarrow>
   readAllRetryDelay a = (if k = 0 then None else Some (backoff (k - 1))) \<Longrightarrow>
   \<exists>a' d' tr. retry_rounds rs (a, d) = (a', d') \<and> ready d' \<and>
      readAllActions d' = readAllActions d \<and> trace d' = trace d @ tr \<and>
      retry_delays tr = map backoff [k..<k + length rs] \<and>
      readAllRetryDelay a' = (if k + length rs = 0 then None else Some (backoff (k + length rs - 1)))"
proof (induction rs arbitrary: a d k)
  case Nil
  then show ?case by simp
next
  case (Cons p rs)
  obtain r lat where p: "p = (r, lat)" by (cases p)
  have f: "fails a d r" and fs: "list_all (\<lambda>(r, lat). fails a d r) rs"
    using Cons.prems(2) by (simp_all add: p)
  let ?a1 = "a\<lparr>readAllRetryDelay := Some (next_delay (readAllRetryDelay a))\<rparr>"
  from retry_round_fails[OF Cons.prems(1) f, of lat] obtain d1 tr1 where
    rr: "retry_round r lat (a, d) = (?a1, d1)" and r1: "ready d1"
    and g1: "gate_view d1 = gate_view d" and q1: "readAllActions d1 = readAllActions d"
    and t1: "trace d1 = trace d @ tr1" and n1: "retry_delays tr1 = [next_delay (readAllRetryDelay a)]"
    by blast
  have nd: "next_delay (readAllRetryDelay a) = backoff k"
    using Cons.prems(3) by (cases k) (simp_all add: next_delay_None next_delay_backoff)
  have fs1: "list_all (\<lambda>(r, lat). fails ?a1 d1 r) rs"
    using fs fails_cong[OF g1 _ q1, of ?a1 a] by (auto simp: list_all_iff)
  have c1: "readAllRetryDelay ?a1 = (if Suc k = 0 then None else Some (backoff (Suc k - 1)))"
    using nd by simp
  from Cons.IH[OF r1 fs1 c1] obtain a' d' tr2 where
    h: "retry_rounds rs (?a1, d1) = (a', d')" "ready d'" "readAllActions d' = readAllActions d1"
       "trace d' = trace d1 @ tr2" "retry_delays tr2 = map backoff [Suc k..<Suc k + length rs]"
       "readAllRetryDelay a' = (if Suc k + length rs = 0 then None else Some (backoff (Suc k + length rs - 1)))"
    by blast
  have "retry_rounds (p # rs) (a, d) = (a', d')" using rr h(1) by (simp add: p)
  moreover have "trace d' = trace d @ (tr1 @ tr2)" using t1 h(4) by simp
  moreover have "retry_delays (tr1 @ tr2) = map backoff [k..<k + length (p # rs)]"
    using n1 nd h(5) upt_shift[of k "length rs"] by (simp del: upt_Suc)
  moreover have "readAllRetryDelay a' = (if k + length (p # rs) = 0 then None
      else Some (backoff (k + length (p # rs) - 1)))" using h(6) by simp
  ultimately show ?case using h(2) h(3) q1 by (intro exI conjI) auto
qed

lemma same_control_actions: "same_control d d' \<Longrightarrow> readAllActions d' = readAllActions d"
  by (simp add: same_control_def)

lemma setConnectedState_keeps_actions:
  "c \<noteq> Some False \<Longrightarrow> readAllActions (setConnectedState c now d) = readAllActions d"
  by (simp add: setConnectedState_def setTimeout_def clearTimeout_def Let_def split: option.splits)

lemma finish_action_accepts:
  assumes "\<not> rejects act r" "r \<noteq> Appliance (Some False)"
  shows "\<exists>d'. finish_action act r now d = Inr d' \<and> readAllActions d' = readAllActions d"
proof (cases act)
  case GetAppliance
  then show ?thesis using assms
    by (cases r) (simp_all add: setConnectedState_keeps_actions)
next
  case GetStatus
  then show ?thesis using assms
    by (cases r) (simp_all add: same_control_actions[OF same_control_update])
next
  case GetSettings
  then show ?thesis using assms
    by (cases r) (simp_all add: same_control_actions[OF same_control_update])
next
  case GetSelectedProgram
  then show ?thesis using assms
    by (cases r) (simp_all add: Let_def same_control_actions[OF same_control_update])
next
  case GetActiveProgram
  then show ?thesis using assms
    by (cases r) (simp_all add: same_control_actions[OF same_control_update])
qed

lemma last_read_resets:
  assumes "awaiting d = Some (aid, act)" "readAllActions d = Some (aid, [act])"
    "\<not> rejects act r" "r \<noteq> Appliance (Some False)"
  shows "readAllRetryDelay (fst (resume r now a d)) = None"
proof -
  from finish_action_accepts[OF assms(3,4), of now "d\<lparr>awaiting := None\<rparr>"]
  obtain d' where f: "finish_action act r now (d\<lparr>awaiting := None\<rparr>) = Inr d'"
    and q: "readAllActions d' = Some (aid, [act])" using assms(2) by auto
  have "readAllActions (shift aid d') = Some (aid, [])" using q by (simp add: shift_def)
  then have "readAll now a (shift aid d') = readAll_finish now a (shift aid d')"
    by (subst readAll.simps) simp
  then have "readAllRetryDelay (fst (readAll now a (shift aid d'))) = None"
    using \<open>readAllActions (shift aid d') = Some (aid, [])\<close>
    by (simp add: readAll_finish_def Let_def)
  then show ?thesis using assms(1) f by (simp add: resume_def)
qed

text \<open>
  One appliance, on a transport that no other appliance uses meanwhile. A run of
  consecutive failures of the resynchronization of the connected appliance: each round,
  the pending \<open>readAll\<close> timer fires when it is due and the read at the head of the
  queue fails, at its gate or on the transport's answer \<open>r\<close> (\<open>fails\<close>). Starting
  from a reset counter, the delays announced are \<open>5, 10, 20, ...\<close> capped at \<open>600\<close>
  (\<open>backoff\<close>, from the spec's words: minimum times factor to the number of failures so
  far, capped at the maximum); the queue is as it was after every round, the failed read
  at its head, and a timer for the next \<open>readAll\<close> is pending. Each failure of a
  connected appliance sets that timer to the announced number of seconds. When the last
  read of the queue succeeds, the counter is reset, so that the next failure waits the
  minimum again.
\<close>

lemma backoff_on_unshared_transport:
  "(ready d \<and> readAllRetryDelay a = None \<and> list_all (\<lambda>(r, latency). fails a d r) rs \<longrightarrow>
      (case retry_rounds rs (a, d) of (a', d') \<Rightarrow>
         retry_delays (drop (length (trace d)) (trace d')) = map backoff [0..<length rs] \<and>
         readAllActions d' = readAllActions d \<and> ready d' \<and>
         readAllRetryDelay a' = (if rs = [] then None else Some (backoff (length rs - 1))))) \<and>
   (connected d = Some True \<longrightarrow>
      (\<exists>n. readAll_catch e now a d =
         (a\<lparr>readAllRetryDelay := Some n\<rparr>,
          d\<lparr>trace := trace d @ [Failure ''Reading appliance state (will retry)'' e, RetryIn n],
            timers := timers d @ [(nextHandle d, now + n * MS, ReadAllCb)],
            nextHandle := Suc (nextHandle d),
            readAllScheduled := Some (nextHandle d)\<rparr>))) \<and>
   (awaiting d = Some (aid, act) \<and> readAllActions d = Some (aid, [act]) \<and>
    \<not> rejects act r \<and> r \<noteq> Appliance (Some False) \<longrightarrow>
      readAllRetryDelay (fst (resume r now a d)) = None)"
proof (intro conjI impI)
  assume h: "ready d \<and> readAllRetryDelay a = None \<and> list_all (\<lambda>(r, latency). fails a d r) rs"
  from retry_rounds_general[of d a rs 0] h obtain a' d' tr where
    r: "retry_rounds rs (a, d) = (a', d')" "ready d'" "readAllActions d' = readAllActions d"
       "trace d' = trace d @ tr" "retry_delays tr = map backoff [0..<length rs]"
       "readAllRetryDelay a' = (if length rs = 0 then None else Some (backoff (length rs - 1)))"
    by auto
  then show "case retry_rounds rs (a, d) of (a', d') \<Rightarrow>
         retry_delays (drop (length (trace d)) (trace d')) = map backoff [0..<length rs] \<and>
         readAllActions d' = readAllActions d \<and> ready d' \<and>
         readAllRetryDelay a' = (if rs = [] then None else Some (backoff (length rs - 1)))"
    by simp
next
  assume "connected d = Some True"
  from readAll_catch_connected[OF this, of e now a]
  show "\<exists>n. readAll_catch e now a d =
         (a\<lparr>readAllRetryDelay := Some n\<rparr>,
          d\<lparr>trace := trace d @ [Failure ''Reading appliance state (will retry)'' e, RetryIn n],
            timers := timers d @ [(nextHandle d, now + n * MS, ReadAllCb)],
            nextHandle := Suc (nextHandle d),
            readAllScheduled := Some (nextHandle d)\<rparr>)"
    by blast
next
  assume "awaiting d = Some (aid, act) \<and> readAllActions d = Some (aid, [act]) \<and>
    \<not> rejects act r \<and> r \<noteq> Appliance (Some False)"
  then show "readAllRetryDelay (fst (resume r now a d)) = None"
    using last_read_resets by blast
qed

text \<open>
  The appliance of the scenarios once its connectivity evaluation has scheduled the reads,
  and nine failing rounds.
\<close>

definition reads_scheduled :: dev where
  "reads_scheduled = snd (fire 0 0 demo_api (new_device ''ha1'' ''Oven'' (Some True) 0))"

definition nine_failures :: "(response \<times> nat) list" where
  "nine_failures = [(Failed (Error ''timeout''), 100), (Empty, 50), (Failed (Error ''timeout''), 10),
     (Empty, 50), (Empty, 50), (Empty, 50), (Empty, 50), (Empty, 50), (Empty, 50)]"

lemma w_ready: "ready reads_scheduled"
  by (simp add: reads_scheduled_def ready_def dev_defs demo_api_def)

lemma w_fails: "list_all (\<lambda>(r, latency). fails demo_api reads_scheduled r) nine_failures"
  by (simp add: reads_scheduled_def nine_failures_def fails_def dev_defs demo_api_def)

lemma backoff_on_unshared_transport_example:
  "ready reads_scheduled \<and> readAllRetryDelay demo_api = None \<and>
   list_all (\<lambda>(r, latency). fails demo_api reads_scheduled r) nine_failures \<and>
   retry_delays (drop (length (trace reads_scheduled))
       (trace (snd (retry_rounds nine_failures (demo_api, reads_scheduled)))))
     = [5, 10, 20, 40, 80, 160, 320, 600, 600]"
proof -
  have b: "map backoff [0..<length nine_failures] = [5, 10, 20, 40, 80, 160, 320, 600, 600]"
    by (simp add: nine_failures_def backoff_def upt_rec)
  have c: "readAllRetryDelay demo_api = None" by (simp add: demo_api_def)
  have "case retry_rounds nine_failures (demo_api, reads_scheduled) of (a', d') \<Rightarrow>
         retry_delays (drop (length (trace reads_scheduled)) (trace d'))
           = map backoff [0..<length nine_failures] \<and>
         readAllActions d' = readAllActions reads_scheduled \<and> ready d' \<and>
         readAllRetryDelay a'
           = (if nine_failures = [] then None else Some (backoff (length nine_failures - 1)))"
    by (rule backoff_on_unshared_transport[of reads_scheduled demo_api nine_failures,
          THEN conjunct1, THEN mp])
       (simp add: w_ready w_fails c)
  then have "retry_delays (drop (length (trace reads_scheduled))
       (trace (snd (retry_rounds nine_failures (demo_api, reads_scheduled)))))
     = map backoff [0..<length nine_failures]"
    by (simp add: case_prod_unfold)
  then show ?thesis using b c w_ready w_fails by simp
qed

text \<open>Three rounds in which the transport call of the read times out.\<close>

definition three_failures :: "(response \<times> nat) list" where
  "three_failures = [(Failed (Error ''timeout''), 100), (Failed (Error ''timeout''), 100),
     (Failed (Error ''timeout''), 100)]"

text \<open>
  C2. The delays of an appliance do not start at the minimum once another appliance has
  failed: the delay counter is a property of the transport object, which the appliances
  share. After the first read of appliance \<open>ha1\<close> has failed (retry in 5 s), appliance
  \<open>ha2\<close> is connected with its reads scheduled, and its first read fails three rounds in
  a row: the delays announced are 10, 20 and 40 s, where the sequence of the spec
  (\<open>backoff\<close>) is 5, 10 and 20 s.
\<close>

theorem backoff_continues_other_appliance:
  "(let (a1, dA) = first_failure demo_api ''ha1'';
        dB = snd (fire 0 0 a1 (new_device ''ha2'' ''Oven'' (Some True) 0));
        (a2, dB') = retry_rounds three_failures (a1, dB)
    in retry_delays (trace dA) = [5] \<and> readAllRetryDelay a1 = Some 5 \<and>
       ready dB \<and> list_all (\<lambda>(r, latency). fails a1 dB r) three_failures \<and>
       retry_delays (drop (length (trace dB)) (trace dB')) = [10, 20, 40] \<and>
       map backoff [0..<length three_failures] = [5, 10, 20])"
  by (simp add: first_failure_def three_failures_def demo_api_def ready_def fails_def
        retry_round_def backoff_def upt_rec dev_defs)


section \<open>The grace period after STOP\<close>

text \<open>
  \<open>fresh\<close>: the handles of the pending timers are below the next handle, as they are
  when \<open>setTimeout\<close> alone hands out handles. \<open>grace\<close>: the delay of the timer of a
  \<open>STOP\<close> event. \<open>count_publish k v tr\<close>: how often \<open>tr\<close> publishes \<open>v\<close> on \<open>k\<close>.
\<close>

definition fresh :: "dev \<Rightarrow> bool" where
  "fresh d = list_all (\<lambda>t. fst t < nextHandle d) (timers d)"

definition grace :: "bool \<Rightarrow> nat" where
  "grace err = (if err then 0 else EVENT_DISCONNECT_DELAY * MS)"

fun count_publish :: "key \<Rightarrow> val \<Rightarrow> out list \<Rightarrow> nat" where
  "count_publish k v [] = 0"
| "count_publish k v (Publish k' v' # tr) = (if k' = k \<and> v' = v then 1 else 0) + count_publish k v tr"
| "count_publish k v (e # tr) = count_publish k v tr"

lemma count_publish_append [simp]:
  "count_publish k v (xs @ ys) = count_publish k v xs + count_publish k v ys"
  by (induction xs rule: count_publish.induct) auto

lemma count_publish_notified:
  "\<forall>x\<in>set tr. \<exists>i. x = Notified i k' v' s \<Longrightarrow> count_publish k v tr = 0"
  by (induction tr) auto

lemma find_fresh_plain:
  "list_all (\<lambda>t. fst t < (n::nat)) xs \<Longrightarrow> find (\<lambda>t. fst t = n) (xs @ [(n, x, c)]) = Some (n, x, c)"
  by (induction xs) auto

lemma filter_fresh_plain:
  "list_all (\<lambda>t. fst t < (n::nat)) xs \<Longrightarrow> filter (\<lambda>t. fst t \<noteq> n) (xs @ [(n, x, c)]) = xs"
  by (induction xs) auto

lemma stop_event:
  "eventListener (STOP err) now d =
     d\<lparr>trace := trace d @ [Debug ''Event''],
       timers := timers d @ [(nextHandle d, now + grace err, StopCb)],
       nextHandle := Suc (nextHandle d),
       stopScheduled := Some (nextHandle d)\<rparr>"
  by (simp add: eventListener_def log_def setTimeout_def grace_def Let_def)

lemma stop_timer_waits:
  assumes "fresh d" "t < now + grace err"
  shows "fire (nextHandle d) t a (eventListener (STOP err) now d) = (a, eventListener (STOP err) now d)"
  using assms find_fresh_plain[of "nextHandle d" "timers d"]
  by (simp add: stop_event fire_def fresh_def)

lemma update_connected:
  "\<exists>tr. trace (update [(K_connected, v)] now d) = trace d @ Publish K_connected v # tr \<and>
        count_publish k w tr = 0 \<and>
        items (update [(K_connected, v)] now d) = (items d)(K_connected \<mapsto> v)"
proof -
  let ?d0 = "d\<lparr>items := (items d)(K_connected \<mapsto> v)\<rparr>"
  let ?d1 = "log (Publish K_connected v) ?d0"
  obtain tr e where n: "notify (observers ?d1 K_connected) K_connected v ?d1 = (?d1\<lparr>trace := trace ?d1 @ tr\<rparr>, e)"
    "\<forall>x\<in>set tr. \<exists>i. x = Notified i K_connected v (items ?d1)"
    using notify_ext by blast
  have c0: "count_publish k w tr = 0" using n(2) count_publish_notified by blast
  have em: "emit K_connected v now ?d1 = (?d1\<lparr>trace := trace ?d1 @ tr\<rparr>, e)"
    using n(1) by (simp add: emit_def key_defs)
  show ?thesis
  proof (cases e)
    case None
    then have "trace (update [(K_connected, v)] now d) = trace d @ Publish K_connected v # tr"
      "items (update [(K_connected, v)] now d) = (items d)(K_connected \<mapsto> v)"
      using em by (simp_all add: update_def log_def)
    then show ?thesis using c0 by blast
  next
    case (Some err)
    then have "trace (update [(K_connected, v)] now d)
        = trace d @ Publish K_connected v # (tr @ [Failure ''Update emit'' err])"
      "items (update [(K_connected, v)] now d) = (items d)(K_connected \<mapsto> v)"
      using em by (simp_all add: update_def log_def)
    moreover have "count_publish k w (tr @ [Failure ''Update emit'' err]) = 0" using c0 by simp
    ultimately show ?thesis by blast
  qed
qed

lemma find_fresh_filter:
  "list_all (\<lambda>t. fst t < (n::nat)) xs \<Longrightarrow> n \<le> m \<Longrightarrow>
   find (\<lambda>t. fst t = m) (filter P xs @ [(m, x, c)]) = Some (m, x, c)"
  by (induction xs) auto

lemma find_old_none:
  "list_all (\<lambda>t. fst t < (n::nat)) xs \<Longrightarrow> n < m \<Longrightarrow>
   find (\<lambda>t. fst t = n) (filter P xs @ [(m, x, c)]) = None"
  by (induction xs) auto

text \<open>What \<open>onDisconnected\<close> logs; the timers but the one with a given handle.\<close>

definition abandon_log :: "dev \<Rightarrow> out list" where
  "abandon_log d = (case readAllActions d of
       Some (aid, act # as) \<Rightarrow> [Debug ''Appliance disconnected; abandoning pending reads'']
     | _ \<Rightarrow> [])"

lemma onDisconnected_eq:
  "onDisconnected d = d\<lparr>trace := trace d @ abandon_log d, readAllActions := None\<rparr>"
  by (simp add: onDisconnected_def abandon_log_def log_def split: option.splits list.splits)

definition without :: "nat option \<Rightarrow> timer list \<Rightarrow> timer list" where
  "without h ts = (case h of None \<Rightarrow> ts | Some i \<Rightarrow> filter (\<lambda>t. fst t \<noteq> i) ts)"

lemma clearTimeout_eq: "clearTimeout h d = d\<lparr>timers := without h (timers d)\<rparr>"
  by (simp add: clearTimeout_def without_def split: option.splits)

lemma setConnectedState_eq:
  "setConnectedState c t d =
     d\<lparr>connected := (if c = None then connected d else c),
       readAllActions := (if c = Some False then None else readAllActions d),
       trace := trace d @ (if c = Some False then abandon_log (d\<lparr>connected := c\<rparr>) else []),
       timers := without (setConnectedScheduled d) (timers d) @ [(nextHandle d, t, SetConnectedCb c)],
       nextHandle := Suc (nextHandle d),
       setConnectedScheduled := Some (nextHandle d)\<rparr>"
proof (cases c)
  case None
  then show ?thesis
    by (simp add: setConnectedState_def clearTimeout_eq setTimeout_def Let_def)
next
  case (Some b)
  then show ?thesis
    by (cases b)
       (simp_all add: setConnectedState_def onDisconnected_eq clearTimeout_eq setTimeout_def
          Let_def abandon_log_def)
qed

lemma without_fresh:
  "list_all (\<lambda>t. fst t < (n::nat)) xs \<Longrightarrow> list_all (\<lambda>t. fst t < n) (without h xs)"
  by (cases h) (auto simp: without_def list_all_iff)

lemma stop_timer_fires:
  assumes "fresh d" "now + grace err \<le> t"
  shows "fire (nextHandle d) t a (eventListener (STOP err) now d) =
     (a, d\<lparr>trace := trace d @ [Debug ''Event'',
                 Debug ''Events may have been missed; treating appliance as disconnected'']
                 @ abandon_log d,
           connected := Some False,
           readAllActions := None,
           timers := without (setConnectedScheduled d) (timers d)
                     @ [(Suc (nextHandle d), t, SetConnectedCb (Some False))],
           nextHandle := Suc (Suc (nextHandle d)),
           stopScheduled := Some (nextHandle d),
           setConnectedScheduled := Some (Suc (nextHandle d))\<rparr>)"
proof -
  have fr: "list_all (\<lambda>t. fst t < nextHandle d) (timers d)" using assms(1) by (simp add: fresh_def)
  show ?thesis
    using assms(2) find_fresh_plain[OF fr] filter_fresh_plain[OF fr]
    by (simp add: stop_event fire_def run_callback_def setConnectedState_eq log_def abandon_log_def)
qed

lemma find_new_without:
  "list_all (\<lambda>t. fst t < (n::nat)) xs \<Longrightarrow> n \<le> m \<Longrightarrow>
   find (\<lambda>t. fst t = m) (without h xs @ [(m, x, c)]) = Some (m, x, c)"
  by (cases h) (simp_all add: without_def find_fresh_filter find_fresh_filter[where P="\<lambda>x. True", simplified])

lemma filter_new_without:
  "list_all (\<lambda>t. fst t < (n::nat)) xs \<Longrightarrow> n \<le> m \<Longrightarrow>
   filter (\<lambda>t. fst t \<noteq> m) (without h xs @ [(m, x, c)]) = without h xs"
proof -
  assume a: "list_all (\<lambda>t. fst t < n) xs" "n \<le> m"
  have "list_all (\<lambda>t. fst t < n) (without h xs)" using a(1) by (rule without_fresh)
  then have "filter (\<lambda>t. fst t \<noteq> m) (without h xs) = without h xs"
    using a(2) by (auto simp: list_all_iff filter_id_conv)
  then show ?thesis by simp
qed

lemma setConnectedCallback_False:
  assumes "connected d \<noteq> Some True"
  shows "\<exists>new. trace (setConnectedCallback (Some False) t d) = trace d @ new \<and>
           count_publish K_connected (Bool False) new
             = (if getItem d K_connected = Bool False then 0 else 1) \<and>
           getItem (setConnectedCallback (Some False) t d) K_connected = Bool False"
proof (cases "getItem d K_connected = Bool False")
  case True
  then have "setConnectedCallback (Some False) t d = d"
    by (simp add: setConnectedCallback_def)
  then show ?thesis using True by simp
next
  case False
  then have e: "setConnectedCallback (Some False) t d = update [(K_connected, Bool False)] t d"
    using assms by (simp add: setConnectedCallback_def)
  from update_connected[of "Bool False" t d K_connected "Bool False"] obtain tr where
    "trace (update [(K_connected, Bool False)] t d) = trace d @ Publish K_connected (Bool False) # tr"
    "count_publish K_connected (Bool False) tr = 0"
    "items (update [(K_connected, Bool False)] t d) = (items d)(K_connected \<mapsto> Bool False)"
    by blast
  then show ?thesis using False e by (simp add: getItem_def)
qed

lemma evaluation_after_stop:
  assumes "fresh d" "now + grace err \<le> t" "t \<le> t'"
  shows "\<exists>new. trace (snd (fire (Suc (nextHandle d)) t' a
                    (snd (fire (nextHandle d) t a (eventListener (STOP err) now d)))))
                = trace (snd (fire (nextHandle d) t a (eventListener (STOP err) now d))) @ new \<and>
           count_publish K_connected (Bool False) new
             = (if getItem d K_connected = Bool False then 0 else 1) \<and>
           getItem (snd (fire (Suc (nextHandle d)) t' a
                    (snd (fire (nextHandle d) t a (eventListener (STOP err) now d))))) K_connected
             = Bool False"
proof -
  have fr: "list_all (\<lambda>t. fst t < nextHandle d) (timers d)" using assms(1) by (simp add: fresh_def)
  let ?d2 = "d\<lparr>trace := trace d @ [Debug ''Event'',
                 Debug ''Events may have been missed; treating appliance as disconnected'']
                 @ abandon_log d,
           connected := Some False,
           readAllActions := None,
           timers := without (setConnectedScheduled d) (timers d)
                     @ [(Suc (nextHandle d), t, SetConnectedCb (Some False))],
           nextHandle := Suc (Suc (nextHandle d)),
           stopScheduled := Some (nextHandle d),
           setConnectedScheduled := Some (Suc (nextHandle d))\<rparr>"
  let ?d2' = "?d2\<lparr>timers := without (setConnectedScheduled d) (timers d)\<rparr>"
  have f1: "fire (nextHandle d) t a (eventListener (STOP err) now d) = (a, ?d2)"
    by (rule stop_timer_fires[OF assms(1,2)])
  have f2: "fire (Suc (nextHandle d)) t' a ?d2 = (a, setConnectedCallback (Some False) t' ?d2')"
    using assms(3) find_new_without[OF fr, of "Suc (nextHandle d)"]
      filter_new_without[OF fr, of "Suc (nextHandle d)"]
    by (simp add: fire_def run_callback_def)
  have c: "connected ?d2' \<noteq> Some True" by simp
  from setConnectedCallback_False[OF c, of t'] obtain new where
    "trace (setConnectedCallback (Some False) t' ?d2') = trace ?d2' @ new"
    "count_publish K_connected (Bool False) new
             = (if getItem ?d2' K_connected = Bool False then 0 else 1)"
    "getItem (setConnectedCallback (Some False) t' ?d2') K_connected = Bool False" by blast
  then show ?thesis unfolding f1 snd_conv f2 by (simp add: getItem_def)
qed

lemma start_event:
  "eventListener START t d =
     d\<lparr>trace := trace d @ [Debug ''Event''],
       timers := without (setConnectedScheduled d) (without (stopScheduled d) (timers d))
                 @ [(nextHandle d, t, SetConnectedCb None)],
       nextHandle := Suc (nextHandle d),
       setConnectedScheduled := Some (nextHandle d)\<rparr>"
  by (simp add: eventListener_def setConnectedState_eq clearTimeout_eq log_def)

lemma find_without_none:
  "find (\<lambda>t. fst t = h) xs = None \<Longrightarrow> find (\<lambda>t. fst t = h) (without g xs) = None"
  by (cases g) (auto simp: without_def find_None_iff)

lemma find_cancelled:
  "find (\<lambda>t. fst t = h) (without g (without (Some h) xs) @ [(Suc h, x, c)]) = None"
proof -
  have "find (\<lambda>t. fst t = h) (without (Some h) xs) = None"
    by (auto simp: without_def find_None_iff)
  then have "find (\<lambda>t. fst t = h) (without g (without (Some h) xs)) = None"
    by (rule find_without_none)
  then show ?thesis by (auto simp: find_None_iff)
qed

lemma start_cancels:
  "find (\<lambda>x. fst x = nextHandle d)
     (timers (eventListener START t (eventListener (STOP err) now d))) = None \<and>
   fire (nextHandle d) t' a (eventListener START t (eventListener (STOP err) now d))
     = (a, eventListener START t (eventListener (STOP err) now d)) \<and>
   connected (eventListener START t (eventListener (STOP err) now d)) = connected d \<and>
   items (eventListener START t (eventListener (STOP err) now d)) = items d \<and>
   readAllActions (eventListener START t (eventListener (STOP err) now d)) = readAllActions d \<and>
   trace (eventListener START t (eventListener (STOP err) now d))
     = trace d @ [Debug ''Event'', Debug ''Event'']"
  by (simp add: start_event stop_event fire_def find_cancelled)

lemma without_subset: "set (without h xs) \<subseteq> set xs"
  by (cases h) (auto simp: without_def)

lemma start_leaves_no_stop_timer:
  assumes "list_all (\<lambda>x. snd (snd x) \<noteq> StopCb) (timers d)"
  shows "list_all (\<lambda>x. snd (snd x) \<noteq> StopCb)
           (timers (eventListener START t (eventListener (STOP err) now d)))"
proof -
  have "set (without g (without (Some (nextHandle d))
               (timers d @ [(nextHandle d, now + grace err, StopCb)])))
        \<subseteq> set (timers d)" for g
  proof -
    have "set (without (Some (nextHandle d)) (timers d @ [(nextHandle d, now + grace err, StopCb)]))
          \<subseteq> set (timers d)" by (auto simp: without_def)
    with without_subset show ?thesis by blast
  qed
  then show ?thesis using assms
    by (auto simp: start_event stop_event list_all_iff)
qed

lemma onConnected_quiet:
  "\<exists>new. trace (onConnected t d) = trace d @ new \<and> count_publish k v new = 0"
  by (auto simp: onConnected_def log_def setTimeout_def Let_def)

lemma start_evaluation_connected:
  assumes "fresh d" "connected d = Some True" "t \<le> t'"
  shows "\<exists>new. trace (snd (fire (Suc (nextHandle d)) t' a
                   (eventListener START t (eventListener (STOP err) now d))))
               = trace (eventListener START t (eventListener (STOP err) now d)) @ new \<and>
            count_publish K_connected (Bool False) new = 0"
proof -
  have fr: "list_all (\<lambda>t. fst t < nextHandle d) (timers d)" using assms(1) by (simp add: fresh_def)
  let ?d2 = "eventListener START t (eventListener (STOP err) now d)"
  have w: "without (Some (nextHandle d)) (timers d @ [(nextHandle d, now + grace err, StopCb)])
             = timers d"
    using filter_fresh_plain[OF fr] by (simp add: without_def)
  let ?d3 = "?d2\<lparr>timers := without (setConnectedScheduled d) (timers d)\<rparr>"
  have f: "fire (Suc (nextHandle d)) t' a ?d2 = (a, setConnectedCallback None t' ?d3)"
    using assms(3) find_new_without[OF fr, of "Suc (nextHandle d)"]
      filter_new_without[OF fr, of "Suc (nextHandle d)"]
    by (simp add: start_event stop_event w fire_def run_callback_def)
  have c: "connected ?d3 = Some True" using assms(2) by (simp add: start_event stop_event)
  have "setConnectedCallback None t' ?d3 = onConnected t' ?d3"
    using c by (simp add: setConnectedCallback_def)
  moreover have "trace ?d3 = trace ?d2" by simp
  ultimately show ?thesis using onConnected_quiet[of t' ?d3] f by simp
qed

text \<open>
  One \<open>STOP\<close> event. It publishes nothing and changes neither the connectivity nor the
  store: it sets one timer, due 3000 ms later, or at once when the event carries \<open>err\<close>.
  Before it is due the timer does nothing. Once due it runs once (it is spent
  afterwards): the appliance is marked disconnected, the pending reads are dropped, and
  the connectivity evaluation it schedules publishes \<open>connected = false\<close> once, unless the
  store already says so. A \<open>START\<close> event following the \<open>STOP\<close>, at whatever time,
  removes that timer, so that it never runs: nothing is published, the connectivity is as
  before the \<open>STOP\<close>, no disconnection timer is pending unless one was before the
  \<open>STOP\<close>, and for a connected appliance the evaluation scheduled by \<open>START\<close> publishes
  no \<open>connected = false\<close> either.
\<close>

lemma single_stop_grace_period:
  "fresh d \<longrightarrow>
   (let d1 = eventListener (STOP err) now d; h = nextHandle d
    in timers d1 = timers d @ [(h, now + grace err, StopCb)] \<and> stopScheduled d1 = Some h \<and>
       connected d1 = connected d \<and> items d1 = items d \<and> trace d1 = trace d @ [Debug ''Event''] \<and>
       (\<forall>t a. t < now + grace err \<longrightarrow> fire h t a d1 = (a, d1)) \<and>
       (\<forall>t t' a. now + grace err \<le> t \<and> t \<le> t' \<longrightarrow>
          (let d2 = snd (fire h t a d1); d3 = snd (fire (Suc h) t' a d2)
           in connected d2 = Some False \<and> readAllActions d2 = None \<and>
              find (\<lambda>x. fst x = h) (timers d2) = None \<and>
              count_publish K_connected (Bool False) (drop (length (trace d)) (trace d2)) = 0 \<and>
              count_publish K_connected (Bool False) (drop (length (trace d2)) (trace d3))
                = (if getItem d K_connected = Bool False then 0 else 1) \<and>
              getItem d3 K_connected = Bool False)) \<and>
       (\<forall>t t' a.
          (let d2 = eventListener START t d1
           in find (\<lambda>x. fst x = h) (timers d2) = None \<and> fire h t' a d2 = (a, d2) \<and>
              connected d2 = connected d \<and> items d2 = items d \<and>
              trace d2 = trace d1 @ [Debug ''Event''] \<and>
              (list_all (\<lambda>x. snd (snd x) \<noteq> StopCb) (timers d) \<longrightarrow>
                 list_all (\<lambda>x. snd (snd x) \<noteq> StopCb) (timers d2)) \<and>
              (connected d = Some True \<and> t \<le> t' \<longrightarrow>
                 count_publish K_connected (Bool False)
                   (drop (length (trace d2)) (trace (snd (fire (Suc h) t' a d2)))) = 0))))"
proof (intro impI)
  assume fr: "fresh d"
  have fr': "list_all (\<lambda>t. fst t < nextHandle d) (timers d)" using fr by (simp add: fresh_def)
  let ?d1 = "eventListener (STOP err) now d"
  let ?h = "nextHandle d"
  have p1: "timers ?d1 = timers d @ [(?h, now + grace err, StopCb)] \<and> stopScheduled ?d1 = Some ?h \<and>
       connected ?d1 = connected d \<and> items ?d1 = items d \<and> trace ?d1 = trace d @ [Debug ''Event'']"
    by (simp add: stop_event)
  have p2: "\<forall>t a. t < now + grace err \<longrightarrow> fire ?h t a ?d1 = (a, ?d1)"
    using stop_timer_waits[OF fr] by blast
  have p3: "connected (snd (fire ?h t a ?d1)) = Some False \<and>
            readAllActions (snd (fire ?h t a ?d1)) = None \<and>
            find (\<lambda>x. fst x = ?h) (timers (snd (fire ?h t a ?d1))) = None \<and>
            count_publish K_connected (Bool False)
               (drop (length (trace d)) (trace (snd (fire ?h t a ?d1)))) = 0 \<and>
            count_publish K_connected (Bool False)
               (drop (length (trace (snd (fire ?h t a ?d1))))
                  (trace (snd (fire (Suc ?h) t' a (snd (fire ?h t a ?d1))))))
                = (if getItem d K_connected = Bool False then 0 else 1) \<and>
            getItem (snd (fire (Suc ?h) t' a (snd (fire ?h t a ?d1)))) K_connected = Bool False"
    if t: "now + grace err \<le> t \<and> t \<le> t'" for t t' a
  proof -
    from evaluation_after_stop[OF fr, of now err t t' a] t obtain new where
      n: "trace (snd (fire (Suc ?h) t' a (snd (fire ?h t a ?d1))))
            = trace (snd (fire ?h t a ?d1)) @ new"
         "count_publish K_connected (Bool False) new
            = (if getItem d K_connected = Bool False then 0 else 1)"
         "getItem (snd (fire (Suc ?h) t' a (snd (fire ?h t a ?d1)))) K_connected = Bool False"
      by blast
    have "find (\<lambda>x. fst x = ?h) (without (setConnectedScheduled d) (timers d)
            @ [(Suc ?h, t, SetConnectedCb (Some False))]) = None"
      using without_fresh[OF fr', of "setConnectedScheduled d"]
      by (auto simp: find_None_iff list_all_iff)
    moreover have "count_publish K_connected (Bool False) (abandon_log d) = 0"
      by (simp add: abandon_log_def split: option.splits list.splits)
    ultimately show ?thesis
      using n t by (simp add: stop_timer_fires[OF fr])
  qed
  have p4: "find (\<lambda>x. fst x = ?h) (timers (eventListener START t ?d1)) = None \<and>
            fire ?h t' a (eventListener START t ?d1) = (a, eventListener START t ?d1) \<and>
            connected (eventListener START t ?d1) = connected d \<and>
            items (eventListener START t ?d1) = items d \<and>
            trace (eventListener START t ?d1) = trace ?d1 @ [Debug ''Event''] \<and>
            (list_all (\<lambda>x. snd (snd x) \<noteq> StopCb) (timers d) \<longrightarrow>
                 list_all (\<lambda>x. snd (snd x) \<noteq> StopCb) (timers (eventListener START t ?d1))) \<and>
            (connected d = Some True \<and> t \<le> t' \<longrightarrow>
                 count_publish K_connected (Bool False)
                   (drop (length (trace (eventListener START t ?d1)))
                      (trace (snd (fire (Suc ?h) t' a (eventListener START t ?d1))))) = 0)"
    for t t' a
  proof -
    have "connected d = Some True \<and> t \<le> t' \<longrightarrow>
                 count_publish K_connected (Bool False)
                   (drop (length (trace (eventListener START t ?d1)))
                      (trace (snd (fire (Suc ?h) t' a (eventListener START t ?d1))))) = 0"
    proof
      assume c: "connected d = Some True \<and> t \<le> t'"
      from start_evaluation_connected[OF fr, of t t' a err now] c obtain new where
        "trace (snd (fire (Suc ?h) t' a (eventListener START t ?d1)))
           = trace (eventListener START t ?d1) @ new"
        "count_publish K_connected (Bool False) new = 0" by blast
      then show "count_publish K_connected (Bool False)
                   (drop (length (trace (eventListener START t ?d1)))
                      (trace (snd (fire (Suc ?h) t' a (eventListener START t ?d1))))) = 0"
        by simp
    qed
    then show ?thesis
      using start_cancels[of d t err now t' a] start_leaves_no_stop_timer[of d t err now] p1
      by simp
  qed
  show "let d1 = eventListener (STOP err) now d; h = nextHandle d
    in timers d1 = timers d @ [(h, now + grace err, StopCb)] \<and> stopScheduled d1 = Some h \<and>
       connected d1 = connected d \<and> items d1 = items d \<and> trace d1 = trace d @ [Debug ''Event''] \<and>
       (\<forall>t a. t < now + grace err \<longrightarrow> fire h t a d1 = (a, d1)) \<and>
       (\<forall>t t' a. now + grace err \<le> t \<and> t \<le> t' \<longrightarrow>
          (let d2 = snd (fire h t a d1); d3 = snd (fire (Suc h) t' a d2)
           in connected d2 = Some False \<and> readAllActions d2 = None \<and>
              find (\<lambda>x. fst x = h) (timers d2) = None \<and>
              count_publish K_connected (Bool False) (drop (length (trace d)) (trace d2)) = 0 \<and>
              count_publish K_connected (Bool False) (drop (length (trace d2)) (trace d3))
                = (if getItem d K_connected = Bool False then 0 else 1) \<and>
              getItem d3 K_connected = Bool False)) \<and>
       (\<forall>t t' a.
          (let d2 = eventListener START t d1
           in find (\<lambda>x. fst x = h) (timers d2) = None \<and> fire h t' a d2 = (a, d2) \<and>
              connected d2 = connected d \<and> items d2 = items d \<and>
              trace d2 = trace d1 @ [Debug ''Event''] \<and>
              (list_all (\<lambda>x. snd (snd x) \<noteq> StopCb) (timers d) \<longrightarrow>
                 list_all (\<lambda>x. snd (snd x) \<noteq> StopCb) (timers d2)) \<and>
              (connected d = Some True \<and> t \<le> t' \<longrightarrow>
                 count_publish K_connected (Bool False)
                   (drop (length (trace d2)) (trace (snd (fire (Suc h) t' a d2)))) = 0)))"
    unfolding Let_def using p1 p2 p3 p4 by blast
qed

text \<open>
  The appliance of the scenarios after its first resynchronization: the three reads
  succeeded, \<open>connected = true\<close> has been published.
\<close>

definition synced :: "api \<times> dev" where
  "synced =
     (let (a1, d1) = fire 0 0 demo_api (new_device ''ha1'' ''Oven'' (Some True) 0);
          (a2, d2) = fire 1 0 a1 d1;
          (a3, d3) = resume (Appliance (Some True)) 10 a2 d2;
          (a4, d4) = fire 2 10 a3 d3;
          (a5, d5) = resume (Items [(K_OperationState, OperationState_Ready)]) 20 a4 d4
      in resume (Items [(K_PowerState, PowerState_On)]) 30 a5 d5)"


lemma synced_eq:
  "synced = (demo_api,
     \<lparr>haId = ''ha1'', appliance_type = ''Oven'',
      items = [K_OperationState \<mapsto> OperationState_Ready, K_PowerState \<mapsto> PowerState_On,
               K_connected \<mapsto> Bool True],
      connected = Some True, hasPrograms = False, stopEvents = False,
      readAllActions = Some (0, []), readAllScheduled = None, setConnectedScheduled = Some 2,
      stopScheduled = None, blackoutScheduled = Some 4, awaiting = None,
      timers = [(4, 2030, BlackoutCb)], nextHandle = 5, nextArray = 1, inferAttached = True,
      observers = (\<lambda>k. []), eventsEnded = False,
      trace = [Debug ''so reading appliance state...'',
         Request (ApiGetAppliance ''ha1''), Request (ApiGetStatus ''ha1''),
         Publish K_OperationState OperationState_Ready,
         Debug ''Operation state implies power is on'',
         Publish K_PowerState PowerState_On,
         Request (ApiGetSettings ''ha1''),
         Publish K_PowerState PowerState_On,
         Debug ''Successfully read all appliance state'',
         Publish K_connected (Bool True)]\<rparr>)"
  by (simp add: synced_def demo_api_def dev_defs)

lemma synced_fresh: "fresh (snd synced)"
  by (simp add: fresh_def synced_eq dev_defs)

lemma synced_handle: "nextHandle (snd synced) = 5"
  by (simp add: synced_eq dev_defs)

lemma single_stop_grace_period_example:
  "fresh (snd synced) \<and>
   timers (eventListener (STOP False) 1000 (snd synced))
     = [(4, 2030, BlackoutCb), (5, 4000, StopCb)] \<and>
   fire 5 3999 demo_api (eventListener (STOP False) 1000 (snd synced))
     = (demo_api, eventListener (STOP False) 1000 (snd synced)) \<and>
   connected (snd (fire 5 4000 demo_api (eventListener (STOP False) 1000 (snd synced))))
     = Some False \<and>
   drop (length (trace (snd synced)))
     (trace (snd (fire 6 4000 demo_api
        (snd (fire 5 4000 demo_api (eventListener (STOP False) 1000 (snd synced)))))))
     = [Debug ''Event'',
        Debug ''Events may have been missed; treating appliance as disconnected'',
        Publish K_connected (Bool False)] \<and>
   timers (eventListener START 2000 (eventListener (STOP False) 1000 (snd synced)))
     = [(4, 2030, BlackoutCb), (6, 2000, SetConnectedCb None)] \<and>
   timers (eventListener (STOP True) 1000 (snd synced))
     = [(4, 2030, BlackoutCb), (5, 1000, StopCb)]"
proof -
  note T = single_stop_grace_period[of "snd synced" False 1000, THEN mp, OF synced_fresh,
      unfolded Let_def synced_handle]
  note W = T[THEN conjunct2, THEN conjunct2, THEN conjunct2, THEN conjunct2, THEN conjunct2,
      THEN conjunct1, rule_format]
  note F = T[THEN conjunct2, THEN conjunct2, THEN conjunct2, THEN conjunct2, THEN conjunct2,
      THEN conjunct2, THEN conjunct1, rule_format]
  have a: "fire 5 3999 demo_api (eventListener (STOP False) 1000 (snd synced))
     = (demo_api, eventListener (STOP False) 1000 (snd synced))"
    by (rule W) (simp add: grace_def)
  have b: "connected (snd (fire 5 4000 demo_api (eventListener (STOP False) 1000 (snd synced))))
     = Some False"
    by (rule F[of 4000 4000 demo_api, THEN conjunct1]) (simp add: grace_def)
  have c: "timers (eventListener (STOP False) 1000 (snd synced))
     = [(4, 2030, BlackoutCb), (5, 4000, StopCb)]"
    by (simp add: synced_eq dev_defs)
  have d: "drop (length (trace (snd synced)))
     (trace (snd (fire 6 4000 demo_api
        (snd (fire 5 4000 demo_api (eventListener (STOP False) 1000 (snd synced)))))))
     = [Debug ''Event'',
        Debug ''Events may have been missed; treating appliance as disconnected'',
        Publish K_connected (Bool False)]"
    by (simp add: synced_eq dev_defs)
  have e: "timers (eventListener START 2000 (eventListener (STOP False) 1000 (snd synced)))
     = [(4, 2030, BlackoutCb), (6, 2000, SetConnectedCb None)]"
    by (simp add: synced_eq dev_defs)
  have f: "timers (eventListener (STOP True) 1000 (snd synced))
     = [(4, 2030, BlackoutCb), (5, 1000, StopCb)]"
    by (simp add: synced_eq dev_defs)
  show ?thesis using synced_fresh a b c d e f by simp
qed

text \<open>
  The appliance of the scenarios after \<open>STOP\<close> at time 1000, \<open>STOP\<close> at time 1500 and
  \<open>START\<close> at time 2000.
\<close>

definition stopped_twice :: dev where
  "stopped_twice =
     eventListener START 2000
       (eventListener (STOP False) 1500 (eventListener (STOP False) 1000 (snd synced)))"

lemma stopped_twice_eq:
  "stopped_twice =
     \<lparr>haId = ''ha1'', appliance_type = ''Oven'',
      items = [K_OperationState \<mapsto> OperationState_Ready, K_PowerState \<mapsto> PowerState_On,
               K_connected \<mapsto> Bool True],
      connected = Some True, hasPrograms = False, stopEvents = False,
      readAllActions = Some (0, []), readAllScheduled = None, setConnectedScheduled = Some 7,
      stopScheduled = Some 6, blackoutScheduled = Some 4, awaiting = None,
      timers = [(4, 2030, BlackoutCb), (5, 4000, StopCb), (7, 2000, SetConnectedCb None)],
      nextHandle = 8, nextArray = 1, inferAttached = True,
      observers = (\<lambda>k. []), eventsEnded = False,
      trace = trace (snd synced) @ [Debug ''Event'', Debug ''Event'', Debug ''Event'']\<rparr>"
  by (simp add: stopped_twice_def synced_eq dev_defs)

text \<open>
  C4. \<open>START\<close> removes the timer of the latest \<open>STOP\<close> only: the handler of \<open>STOP\<close>
  overwrites \<open>stopScheduled\<close> without clearing the timer it holds. After \<open>STOP\<close> at 1000
  and at 1500, two disconnection timers are pending (due 4000 and 4500) and
  \<open>stopScheduled\<close> holds the second. \<open>START\<close> at 2000, inside the grace period of both,
  removes the second; the connectivity evaluation it schedules publishes nothing. At
  4000 the timer of the first \<open>STOP\<close> runs: the appliance is marked disconnected and
  \<open>connected = false\<close> is published.
\<close>

theorem start_cancels_latest_stop_only:
  "timers (eventListener (STOP False) 1500 (eventListener (STOP False) 1000 (snd synced)))
     = [(4, 2030, BlackoutCb), (5, 4000, StopCb), (6, 4500, StopCb)] \<and>
   stopScheduled (eventListener (STOP False) 1500 (eventListener (STOP False) 1000 (snd synced)))
     = Some 6 \<and>
   timers stopped_twice
     = [(4, 2030, BlackoutCb), (5, 4000, StopCb), (7, 2000, SetConnectedCb None)] \<and>
   trace (snd (fire 7 2000 demo_api stopped_twice)) = trace stopped_twice \<and>
   connected (snd (fire 5 4000 demo_api (snd (fire 7 2000 demo_api stopped_twice))))
     = Some False \<and>
   drop (length (trace stopped_twice))
     (trace (snd (fire 8 4000 demo_api
        (snd (fire 5 4000 demo_api (snd (fire 7 2000 demo_api stopped_twice)))))))
     = [Debug ''Events may have been missed; treating appliance as disconnected'',
        Publish K_connected (Bool False)] \<and>
   getItem (snd (fire 8 4000 demo_api
        (snd (fire 5 4000 demo_api (snd (fire 7 2000 demo_api stopped_twice)))))) K_connected
     = Bool False"
proof -
  have a: "timers (eventListener (STOP False) 1500 (eventListener (STOP False) 1000 (snd synced)))
     = [(4, 2030, BlackoutCb), (5, 4000, StopCb), (6, 4500, StopCb)]"
    "stopScheduled (eventListener (STOP False) 1500 (eventListener (STOP False) 1000 (snd synced)))
     = Some 6"
    by (simp_all add: synced_eq dev_defs)
  show ?thesis
    unfolding a by (simp add: stopped_twice_eq synced_eq dev_defs)
qed


section \<open>Disconnection during the resynchronization\<close>




text \<open>
  \<open>abandoned\<close>: the appliance is not known to be connected and has no queue of reads.
  \<open>silent\<close>: a trace entry that is no transport call, no retry and no publish of
  \<open>connected = true\<close>. \<open>plain\<close>: the items a step brings do not themselves carry
  \<open>connected = true\<close> (the key is the device's own). \<open>connect_signal\<close>: the step says
  that the appliance is connected (a \<open>CONNECTED\<close> event, an appliance descriptor saying
  so) or runs the connectivity evaluation that \<open>START\<close>, \<open>PAIRED\<close>, \<open>CONNECTED\<close> or
  such a descriptor has scheduled. \<open>quiet_run\<close>: a run of plain steps without connect
  signal.
\<close>

definition abandoned :: "dev \<Rightarrow> bool" where
  "abandoned d = (readAllActions d = None \<and> connected d \<noteq> Some True)"

fun silent :: "out \<Rightarrow> bool" where
  "silent (Request r) = False"
| "silent (RetryIn n) = False"
| "silent (Publish k v) = (\<not> (k = K_connected \<and> v = Bool True))"
| "silent (Notified i k v s) = True"
| "silent (Debug m) = True"
| "silent (Failure m e) = True"





text \<open>
  \<open>hush d d'\<close>: \<open>d'\<close> is abandoned, and all it has done since \<open>d\<close> is silent.
\<close>
definition hush :: "dev \<Rightarrow> dev \<Rightarrow> bool" where
  "hush d d' = (abandoned d' \<and> (\<exists>new. trace d' = trace d @ new \<and> list_all silent new))"














lemma hush_awaiting: "hush d d' \<Longrightarrow> hush (d\<lparr>awaiting := x\<rparr>) d'"
  by (simp add: hush_def)



lemma hush_timers: "hush d d' \<Longrightarrow> hush (d\<lparr>timers := x\<rparr>) d'"
  by (simp add: hush_def)






text \<open>
  \<open>mute d d'\<close>: nothing published \<open>connected = true\<close> from \<open>d\<close> to \<open>d'\<close>.
  \<open>done_or_mute d d'\<close>: if something did, then \<open>d'\<close> is connected and its queue of reads
  has been read to the end.
\<close>

definition announcement :: out where
  "announcement = Publish K_connected (Bool True)"

definition mute :: "dev \<Rightarrow> dev \<Rightarrow> bool" where
  "mute d d' = (\<exists>new. trace d' = trace d @ new \<and> announcement \<notin> set new)"


lemma mute_refl [simp]: "mute d d"
  by (simp add: mute_def)











lemma mute_fields [simp]:
  "mute d d' \<Longrightarrow> mute (d\<lparr>awaiting := x\<rparr>) d'"
  "mute d d' \<Longrightarrow> mute (d\<lparr>timers := y\<rparr>) d'"
  "mute d d' \<Longrightarrow> mute d (d'\<lparr>awaiting := x\<rparr>)"
  by (simp_all add: mute_def)


















section \<open>Serialised operations of the accessory\<close>

text \<open>
  A pending request of \<open>serialise\<close>: the options merged so far, the \<open>resolve\<close> and
  \<open>reject\<close> functions of the promises handed out (each promise by its number), and
  whether \<open>scheduled\<close> holds a timer.
\<close>

record pending_request =
  options :: "key \<rightharpoonup> val"
  resolve :: "nat list"
  reject :: "nat list"
  scheduled :: bool

text \<open>An entry of \<open>this.serialiseOps\<close>, found by its \<open>operation\<close>.\<close>

record op_entry =
  pending :: "pending_request option"
  active :: "pending_request option"

datatype settlement = Resolved val | Rejected error

text \<open>
  The accessory as far as \<open>serialise\<close> goes: the entries by operation; the timers set for
  \<open>doOperation\<close>, by operation; how the promises handed out have been settled; the calls
  of operations made so far with their options; the operations whose call has not
  returned yet.
\<close>

record accessory =
  serialiseOps :: "nat \<rightharpoonup> op_entry"
  op_timers :: "nat list"
  settled :: "nat \<rightharpoonup> settlement"
  nextPromise :: nat
  performed :: "(nat \<times> (key \<rightharpoonup> val)) list"
  running :: "nat list"

definition new_accessory :: accessory where
  "new_accessory = \<lparr>serialiseOps = Map.empty, op_timers = [], settled = Map.empty,
                     nextPromise = 0, performed = [], running = []\<rparr>"

text \<open>
  \<open>serialise(operation, options)\<close>; the promise it returns is \<open>nextPromise\<close>.
  \<open>Object.assign\<close> is the merge of the maps, the later options winning.
\<close>

definition serialise :: "nat \<Rightarrow> (key \<rightharpoonup> val) \<Rightarrow> accessory \<Rightarrow> accessory" where
  "serialise operation opts s =
     (let op = (case serialiseOps s operation of
                  None \<Rightarrow> \<lparr>pending = None, active = None\<rparr> | Some e \<Rightarrow> e);
          p1 = (case pending op of
                  Some p \<Rightarrow> p\<lparr>options := options p ++ opts\<rparr>
                | None \<Rightarrow> \<lparr>options = opts, resolve = [], reject = [], scheduled = False\<rparr>);
          schedule = (\<not> scheduled p1 \<and> active op = None);
          p2 = (if schedule then p1\<lparr>scheduled := True\<rparr> else p1);
          p3 = p2\<lparr>resolve := resolve p2 @ [nextPromise s], reject := reject p2 @ [nextPromise s]\<rparr>
      in s\<lparr>serialiseOps := (serialiseOps s)(operation \<mapsto> op\<lparr>pending := Some p3\<rparr>),
           op_timers := op_timers s @ (if schedule then [operation] else []),
           nextPromise := Suc (nextPromise s)\<rparr>)"

text \<open>
  \<open>doOperation(op)\<close> up to its \<open>await\<close>: the pending request becomes the active one and
  the operation is called with its options. (Without a pending request the call would
  fail on \<open>op.active\<close> being undefined, and the \<open>finally\<close> deletes \<open>op.active\<close>.)
\<close>

definition doOperation :: "nat \<Rightarrow> accessory \<Rightarrow> accessory" where
  "doOperation operation s =
     (case serialiseOps s operation of
        None \<Rightarrow> s
      | Some op \<Rightarrow>
          (case pending op of
             Some p \<Rightarrow>
               s\<lparr>serialiseOps := (serialiseOps s)(operation \<mapsto> op\<lparr>active := Some p, pending := None\<rparr>),
                 performed := performed s @ [(operation, options p)],
                 running := running s @ [operation]\<rparr>
           | None \<Rightarrow>
               s\<lparr>serialiseOps := (serialiseOps s)(operation \<mapsto> op\<lparr>active := None\<rparr>)\<rparr>))"

text \<open>The runtime runs the timer set for \<open>doOperation\<close> of an operation, if one is pending.\<close>

definition tick :: "nat \<Rightarrow> accessory \<Rightarrow> accessory" where
  "tick operation s =
     (if operation \<in> set (op_timers s)
      then doOperation operation (s\<lparr>op_timers := remove1 operation (op_timers s)\<rparr>)
      else s)"

text \<open>A promise is settled once; settling it again changes nothing.\<close>

fun settle :: "settlement \<Rightarrow> nat list \<Rightarrow> (nat \<rightharpoonup> settlement) \<Rightarrow> (nat \<rightharpoonup> settlement)" where
  "settle x [] m = m"
| "settle x (p # ps) m = settle x ps (case m p of None \<Rightarrow> m(p \<mapsto> x) | Some y \<Rightarrow> m)"

text \<open>
  The call of the operation returns (\<open>Inr\<close>) or throws (\<open>Inl\<close>): \<open>doOperation\<close> goes on
  after its \<open>await\<close>, settles the promises of the active request and, in its \<open>finally\<close>,
  schedules itself again if a request is pending.
\<close>

definition complete :: "nat \<Rightarrow> error + val \<Rightarrow> accessory \<Rightarrow> accessory" where
  "complete operation res s =
     (if operation \<notin> set (running s) then s
      else
        (case serialiseOps s operation of
           None \<Rightarrow> s
         | Some op \<Rightarrow>
             (let settled' = (case active op of
                                None \<Rightarrow> settled s
                              | Some act \<Rightarrow>
                                  (case res of
                                     Inr result \<Rightarrow> settle (Resolved result) (resolve act) (settled s)
                                   | Inl err \<Rightarrow> settle (Rejected err) (reject act) (settled s)));
                  again = (pending op \<noteq> None)
              in s\<lparr>running := remove1 operation (running s),
                   settled := settled',
                   serialiseOps := (serialiseOps s)(operation \<mapsto>
                      op\<lparr>active := None,
                         pending := map_option (\<lambda>p. p\<lparr>scheduled := True\<rparr>) (pending op)\<rparr>),
                   op_timers := op_timers s @ (if again then [operation] else [])\<rparr>)))"

text \<open>
  What happens to the accessory: a caller calls \<open>serialise\<close>, the runtime runs the
  timer of an operation, the call of an operation returns or throws.
\<close>

datatype call_step = Call nat "key \<rightharpoonup> val" | Tick nat | Return nat "error + val"

fun accessory_step :: "call_step \<Rightarrow> accessory \<Rightarrow> accessory" where
  "accessory_step (Call operation opts) s = serialise operation opts s"
| "accessory_step (Tick operation) s = tick operation s"
| "accessory_step (Return operation res) s = complete operation res s"

text \<open>
  What holds of every operation in every state the accessory can reach: its call is
  running exactly while it has an active request; a timer is set for it exactly while
  it has a pending request marked \<open>scheduled\<close>, and only while no call of it is running;
  a pending request not marked \<open>scheduled\<close> waits for the running call.
\<close>

definition sinv_op :: "accessory \<Rightarrow> nat \<Rightarrow> bool" where
  "sinv_op s operation =
     (case serialiseOps s operation of
        None \<Rightarrow> operation \<notin> set (op_timers s) \<and> operation \<notin> set (running s)
      | Some op \<Rightarrow>
          (operation \<in> set (running s)) = (active op \<noteq> None) \<and>
          (operation \<in> set (op_timers s))
            = (case pending op of None \<Rightarrow> False | Some p \<Rightarrow> scheduled p) \<and>
          (if operation \<in> set (op_timers s) then active op = None else True) \<and>
          (case pending op of None \<Rightarrow> True | Some p \<Rightarrow> scheduled p \<or> active op \<noteq> None))"

definition sinv :: "accessory \<Rightarrow> bool" where
  "sinv s = (distinct (op_timers s) \<and> distinct (running s) \<and> (\<forall>operation. sinv_op s operation))"

lemma sinv_new: "sinv new_accessory"
  by (simp add: sinv_def sinv_op_def new_accessory_def)

lemma sinv_serialise:
  assumes "sinv s"
  shows "sinv (serialise operation opts s)"
proof -
  have d1: "distinct (op_timers s)" and d2: "distinct (running s)"
    and io: "sinv_op s x" for x
    using assms by (simp_all add: sinv_def)
  have t: "distinct (op_timers (serialise operation opts s))"
    using d1 io[of operation]
    by (auto simp: serialise_def Let_def sinv_op_def split: option.splits)
  have r: "distinct (running (serialise operation opts s))"
    using d2 by (simp add: serialise_def Let_def)
  have "sinv_op (serialise operation opts s) x" for x
  proof (cases "x = operation")
    case True
    then show ?thesis using io[of operation]
      by (auto simp: serialise_def Let_def sinv_op_def split: option.splits)
  next
    case False
    then show ?thesis using io[of x]
      by (auto simp: serialise_def Let_def sinv_op_def split: option.splits)
  qed
  then show ?thesis using t r by (simp add: sinv_def)
qed

lemma sinv_tick:
  assumes "sinv s"
  shows "sinv (tick operation s)"
proof (cases "operation \<in> set (op_timers s)")
  case False
  then show ?thesis using assms by (simp add: tick_def)
next
  case True
  have d1: "distinct (op_timers s)" and d2: "distinct (running s)"
    and io: "sinv_op s x" for x
    using assms by (simp_all add: sinv_def)
  from io[of operation] True obtain op p where
    op: "serialiseOps s operation = Some op" "pending op = Some p" "scheduled p"
        "active op = None" "operation \<notin> set (running s)"
    by (auto simp: sinv_op_def split: option.splits)
  let ?s' = "s\<lparr>op_timers := remove1 operation (op_timers s),
               serialiseOps := (serialiseOps s)(operation \<mapsto> op\<lparr>active := Some p, pending := None\<rparr>),
               performed := performed s @ [(operation, options p)],
               running := running s @ [operation]\<rparr>"
  have e: "tick operation s = ?s'" using True op by (simp add: tick_def doOperation_def)
  have "sinv_op ?s' x" for x
  proof (cases "x = operation")
    case True
    then show ?thesis using d1 by (simp add: sinv_op_def)
  next
    case False
    then show ?thesis using io[of x]
      by (auto simp: sinv_op_def split: option.splits)
  qed
  then show ?thesis using d1 d2 op(5) by (simp add: e sinv_def)
qed

lemma sinv_complete:
  assumes "sinv s"
  shows "sinv (complete operation res s)"
proof (cases "operation \<in> set (running s)")
  case False
  then show ?thesis using assms by (simp add: complete_def)
next
  case True
  have d1: "distinct (op_timers s)" and d2: "distinct (running s)"
    and io: "sinv_op s x" for x
    using assms by (simp_all add: sinv_def)
  from io[of operation] True obtain op act where
    op: "serialiseOps s operation = Some op" "active op = Some act"
        "operation \<notin> set (op_timers s)"
    by (auto simp: sinv_op_def split: option.splits if_splits)
  define s' where "s' = complete operation res s"
  have f: "running s' = remove1 operation (running s)"
    "op_timers s' = op_timers s @ (if pending op \<noteq> None then [operation] else [])"
    "serialiseOps s' = (serialiseOps s)(operation \<mapsto>
        op\<lparr>active := None, pending := map_option (\<lambda>p. p\<lparr>scheduled := True\<rparr>) (pending op)\<rparr>)"
    using True op by (simp_all add: s'_def complete_def Let_def)
  have "sinv_op s' x" for x
  proof (cases "x = operation")
    case True
    then show ?thesis using d2 op(3) by (cases "pending op") (simp_all add: sinv_op_def f)
  next
    case False
    then show ?thesis using io[of x]
      by (auto simp: sinv_op_def f split: option.splits)
  qed
  moreover have "distinct (op_timers s')" using d1 op(3) by (simp add: f)
  moreover have "distinct (running s')" using d2 by (simp add: f)
  ultimately show ?thesis unfolding s'_def[symmetric] by (simp add: sinv_def)
qed

lemma sinv_step: "sinv s \<Longrightarrow> sinv (accessory_step st s)"
  by (cases st) (simp_all add: sinv_serialise sinv_tick sinv_complete)

fun accessory_run :: "call_step list \<Rightarrow> accessory \<Rightarrow> accessory" where
  "accessory_run [] s = s"
| "accessory_run (st # sts) s = accessory_run sts (accessory_step st s)"

lemma sinv_run: "sinv s \<Longrightarrow> sinv (accessory_run sts s)"
  by (induction sts arbitrary: s) (simp_all add: sinv_step)

lemma settle_apply:
  "settle x ps m p = (if p \<in> set ps \<and> m p = None then Some x else m p)"
  by (induction ps arbitrary: m) (auto split: option.splits)

text \<open>The promises a request holds and the settled promises have been handed out.\<close>

definition bounded :: "nat \<Rightarrow> pending_request option \<Rightarrow> bool" where
  "bounded n r = (case r of None \<Rightarrow> True
                  | Some q \<Rightarrow> list_all (\<lambda>p. p < n) (resolve q) \<and> list_all (\<lambda>p. p < n) (reject q))"

definition pinv :: "accessory \<Rightarrow> bool" where
  "pinv s =
     ((\<forall>p. nextPromise s \<le> p \<longrightarrow> settled s p = None) \<and>
      (\<forall>operation. case serialiseOps s operation of
                      None \<Rightarrow> True
                    | Some op \<Rightarrow> bounded (nextPromise s) (pending op) \<and>
                                bounded (nextPromise s) (active op)))"

lemma bounded_mono: "bounded n r \<Longrightarrow> n \<le> m \<Longrightarrow> bounded m r"
  by (auto simp: bounded_def list_all_iff split: option.splits)

lemma pinv_new: "pinv new_accessory"
  by (simp add: pinv_def new_accessory_def)

lemma pinv_serialise:
  assumes "pinv s"
  shows "pinv (serialise operation opts s)"
proof -
  have a: "nextPromise s \<le> p \<Longrightarrow> settled s p = None" for p using assms by (simp add: pinv_def)
  have b: "serialiseOps s x = Some op \<Longrightarrow>
      bounded (nextPromise s) (pending op) \<and> bounded (nextPromise s) (active op)" for x op
    using assms by (auto simp: pinv_def split: option.splits)
  have b': "serialiseOps s x = Some op \<Longrightarrow>
      bounded (Suc (nextPromise s)) (pending op) \<and> bounded (Suc (nextPromise s)) (active op)" for x op
    using b[of x op] bounded_mono[of "nextPromise s" _ "Suc (nextPromise s)"] by simp
  have "case serialiseOps (serialise operation opts s) x of
          None \<Rightarrow> True
        | Some op \<Rightarrow> bounded (nextPromise (serialise operation opts s)) (pending op) \<and>
                    bounded (nextPromise (serialise operation opts s)) (active op)" for x
  proof (cases "x = operation")
    case True
    show ?thesis
    proof (cases "serialiseOps s operation")
      case None
      then show ?thesis using True
        by (simp add: serialise_def Let_def bounded_def)
    next
      case (Some op)
      from b'[OF Some] show ?thesis using True Some
        by (cases "pending op")
           (auto simp: serialise_def Let_def bounded_def list_all_iff)
    qed
  next
    case False
    then show ?thesis using b'[of x]
      by (auto simp: serialise_def Let_def split: option.splits)
  qed
  moreover have "nextPromise (serialise operation opts s) \<le> p \<Longrightarrow>
      settled (serialise operation opts s) p = None" for p
    using a[of p] by (simp add: serialise_def Let_def)
  ultimately show ?thesis by (simp add: pinv_def)
qed

lemma tick_frame:
  "nextPromise (tick operation s) = nextPromise s \<and> settled (tick operation s) = settled s"
  by (simp add: tick_def doOperation_def split: option.splits)

lemma pinv_tick:
  assumes "pinv s"
  shows "pinv (tick operation s)"
proof -
  have b: "serialiseOps s x = Some op \<Longrightarrow>
      bounded (nextPromise s) (pending op) \<and> bounded (nextPromise s) (active op)" for x op
    using assms by (auto simp: pinv_def split: option.splits)
  have "case serialiseOps (tick operation s) x of
          None \<Rightarrow> True
        | Some op \<Rightarrow> bounded (nextPromise (tick operation s)) (pending op) \<and>
                    bounded (nextPromise (tick operation s)) (active op)" for x
    using b[of x] b[of operation]
    by (cases "x = operation")
       (auto simp: tick_def doOperation_def tick_frame bounded_def split: option.splits)
  moreover have "nextPromise (tick operation s) \<le> p \<Longrightarrow> settled (tick operation s) p = None" for p
    using assms by (simp add: pinv_def tick_frame)
  ultimately show ?thesis by (simp add: pinv_def)
qed

lemma pinv_complete:
  assumes "pinv s"
  shows "pinv (complete operation res s)"
proof (cases "operation \<in> set (running s) \<and> serialiseOps s operation \<noteq> None")
  case False
  then show ?thesis using assms by (auto simp: complete_def)
next
  case True
  then obtain op where op: "serialiseOps s operation = Some op" by auto
  have a: "nextPromise s \<le> p \<Longrightarrow> settled s p = None" for p using assms by (simp add: pinv_def)
  have b: "serialiseOps s x = Some op \<Longrightarrow>
      bounded (nextPromise s) (pending op) \<and> bounded (nextPromise s) (active op)" for x op
    using assms by (auto simp: pinv_def split: option.splits)
  define s' where "s' = complete operation res s"
  have f: "nextPromise s' = nextPromise s"
    "serialiseOps s' = (serialiseOps s)(operation \<mapsto>
        op\<lparr>active := None, pending := map_option (\<lambda>p. p\<lparr>scheduled := True\<rparr>) (pending op)\<rparr>)"
    "settled s' = (case active op of
                     None \<Rightarrow> settled s
                   | Some act \<Rightarrow>
                       (case res of
                          Inr result \<Rightarrow> settle (Resolved result) (resolve act) (settled s)
                        | Inl err \<Rightarrow> settle (Rejected err) (reject act) (settled s)))"
    using True op by (simp_all add: s'_def complete_def Let_def)
  have "settled s' p = None" if "nextPromise s \<le> p" for p
    using that a[of p] b[OF op]
    by (auto simp: f settle_apply bounded_def list_all_iff split: option.splits sum.splits)
  moreover have "case serialiseOps s' x of
          None \<Rightarrow> True
        | Some op \<Rightarrow> bounded (nextPromise s') (pending op) \<and> bounded (nextPromise s') (active op)" for x
    using b[of x] b[OF op]
    by (cases "pending op") (auto simp: f bounded_def split: option.splits)
  ultimately show ?thesis unfolding s'_def[symmetric] by (simp add: pinv_def f)
qed

lemma pinv_step: "pinv s \<Longrightarrow> pinv (accessory_step st s)"
  by (cases st) (simp_all add: pinv_serialise pinv_tick pinv_complete)

lemma pinv_run: "pinv s \<Longrightarrow> pinv (accessory_run sts s)"
  by (induction sts arbitrary: s) (simp_all add: pinv_step)

text \<open>An operation with neither a pending nor an active request.\<close>

definition idle :: "accessory \<Rightarrow> nat \<Rightarrow> bool" where
  "idle s operation =
     (case serialiseOps s operation of
        None \<Rightarrow> True
      | Some op \<Rightarrow> pending op = None \<and> active op = None)"

lemma idle_quiet:
  assumes "sinv s" "idle s operation"
  shows "operation \<notin> set (op_timers s) \<and> operation \<notin> set (running s)"
proof -
  have "sinv_op s operation" using assms(1) by (simp add: sinv_def)
  then show ?thesis using assms(2)
    by (auto simp: sinv_op_def idle_def split: option.splits)
qed

text \<open>The calls \<open>serialise(operation, o)\<close> for the options of a list, in order.\<close>

definition calls :: "nat \<Rightarrow> (key \<rightharpoonup> val) list \<Rightarrow> accessory \<Rightarrow> accessory" where
  "calls operation os s = foldl (\<lambda>s opts. serialise operation opts s) s os"

lemma calls_snoc: "calls operation (os @ [opts]) s = serialise operation opts (calls operation os s)"
  by (simp add: calls_def)

lemma serialise_first:
  assumes "idle s operation"
  shows "serialise operation o1 s =
     s\<lparr>serialiseOps := (serialiseOps s)(operation \<mapsto>
          \<lparr>pending = Some \<lparr>options = o1, resolve = [nextPromise s],
                           reject = [nextPromise s], scheduled = True\<rparr>,
           active = None\<rparr>),
       op_timers := op_timers s @ [operation],
       nextPromise := Suc (nextPromise s)\<rparr>"
proof (cases "serialiseOps s operation")
  case None
  then show ?thesis by (simp add: serialise_def Let_def)
next
  case (Some op)
  then have "op = \<lparr>pending = None, active = None\<rparr>"
    using assms by (cases op) (simp add: idle_def)
  then show ?thesis using Some by (simp add: serialise_def Let_def)
qed

lemma serialise_more:
  assumes "serialiseOps s operation = Some \<lparr>pending = Some p, active = None\<rparr>" "scheduled p"
  shows "serialise operation opts s =
     s\<lparr>serialiseOps := (serialiseOps s)(operation \<mapsto>
          \<lparr>pending = Some (p\<lparr>options := options p ++ opts,
                               resolve := resolve p @ [nextPromise s],
                               reject := reject p @ [nextPromise s]\<rparr>),
           active = None\<rparr>),
       nextPromise := Suc (nextPromise s)\<rparr>"
  using assms by (simp add: serialise_def Let_def)

lemma after_calls:
  assumes "idle s operation"
  shows "serialiseOps (calls operation (o1 # os) s) operation
           = Some \<lparr>pending = Some \<lparr>options = foldl (++) o1 os,
                           resolve = [nextPromise s..<nextPromise s + Suc (length os)],
                           reject = [nextPromise s..<nextPromise s + Suc (length os)],
                           scheduled = True\<rparr>,
                    active = None\<rparr> \<and>
         op_timers (calls operation (o1 # os) s) = op_timers s @ [operation] \<and>
         nextPromise (calls operation (o1 # os) s) = nextPromise s + Suc (length os) \<and>
         performed (calls operation (o1 # os) s) = performed s \<and>
         running (calls operation (o1 # os) s) = running s \<and>
         settled (calls operation (o1 # os) s) = settled s"
proof (induction os rule: rev_induct)
  case Nil
  show ?case by (simp add: calls_def serialise_first[OF assms])
next
  case (snoc opts os)
  let ?p = "\<lparr>options = foldl (++) o1 os,
             resolve = [nextPromise s..<nextPromise s + Suc (length os)],
             reject = [nextPromise s..<nextPromise s + Suc (length os)],
             scheduled = True\<rparr>"
  let ?s2 = "calls operation (o1 # os) s"
  have a: "serialiseOps ?s2 operation = Some \<lparr>pending = Some ?p, active = None\<rparr>"
    using snoc.IH by simp
  have "calls operation (o1 # os @ [opts]) s = serialise operation opts ?s2"
    using calls_snoc[of operation "o1 # os" opts s] by simp
  also have "\<dots> = ?s2\<lparr>serialiseOps := (serialiseOps ?s2)(operation \<mapsto>
          \<lparr>pending = Some (?p\<lparr>options := options ?p ++ opts,
                               resolve := resolve ?p @ [nextPromise ?s2],
                               reject := reject ?p @ [nextPromise ?s2]\<rparr>),
           active = None\<rparr>),
       nextPromise := Suc (nextPromise ?s2)\<rparr>"
    by (rule serialise_more[OF a]) simp
  finally show ?case
    using snoc.IH by simp
qed

text \<open>
  C9. One call of \<open>serialise\<close> for an idle operation and any number of further calls
  for it before its timer runs make no call of the operation by themselves; when the
  timer runs, the operation is called once, with the options of the calls merged in
  order (a later call's value wins); no promise is settled before the call returns; when
  it returns, every caller's promise is resolved with its result, and when it throws,
  every caller's promise is rejected with its error; the call is then no longer running.
  In every state the accessory reaches from its creation, no operation has two calls
  running.
\<close>

theorem serialise_coalesces:
  "(sinv s \<and> pinv s \<and> idle s operation \<longrightarrow>
      (let s2 = calls operation (o1 # os) s; s3 = tick operation s2
       in performed s2 = performed s \<and>
          performed s3 = performed s @ [(operation, foldl (++) o1 os)] \<and>
          running s3 = running s @ [operation] \<and>
          (\<forall>i \<le> length os. settled s3 (nextPromise s + i) = None) \<and>
          (\<forall>i \<le> length os.
             settled (complete operation (Inr result) s3) (nextPromise s + i)
               = Some (Resolved result)) \<and>
          (\<forall>i \<le> length os.
             settled (complete operation (Inl err) s3) (nextPromise s + i)
               = Some (Rejected err)) \<and>
          running (complete operation res s3) = running s \<and>
          performed (complete operation res s3) = performed s3)) \<and>
   sinv (accessory_run sts new_accessory) \<and> pinv (accessory_run sts new_accessory) \<and>
   distinct (running (accessory_run sts new_accessory))"
proof (intro conjI impI)
  assume h: "sinv s \<and> pinv s \<and> idle s operation"
  then have id: "idle s operation" and si: "sinv s" and pi: "pinv s" by simp_all
  have q: "operation \<notin> set (op_timers s)" "operation \<notin> set (running s)"
    using idle_quiet[OF si id] by simp_all
  have fresh: "settled s (nextPromise s + i) = None" for i
    using pi by (simp add: pinv_def)
  let ?n = "nextPromise s"
  let ?p = "\<lparr>options = foldl (++) o1 os, resolve = [?n..<?n + Suc (length os)],
             reject = [?n..<?n + Suc (length os)], scheduled = True\<rparr>"
  let ?s2 = "calls operation (o1 # os) s"
  let ?s3 = "tick operation ?s2"
  note ac = after_calls[OF id, of o1 os]
  have e2: "performed ?s2 = performed s" using ac by simp
  have m: "operation \<in> set (op_timers ?s2)" using ac by simp
  have e3: "performed ?s3 = performed s @ [(operation, foldl (++) o1 os)]"
    "running ?s3 = running s @ [operation]"
    "settled ?s3 = settled s"
    "serialiseOps ?s3 operation = Some \<lparr>pending = None, active = Some ?p\<rparr>"
    using ac m by (simp_all add: tick_def doOperation_def)
  have c: "settled (complete operation r ?s3)
      = (case r of Inr result \<Rightarrow> settle (Resolved result) [?n..<?n + Suc (length os)] (settled s)
         | Inl err \<Rightarrow> settle (Rejected err) [?n..<?n + Suc (length os)] (settled s))" for r
    using e3 by (cases r) (simp_all add: complete_def Let_def)
  have r4: "running (complete operation r ?s3) = running s" for r
    using q e3 by (simp add: complete_def Let_def remove1_append)
  have p4: "performed (complete operation r ?s3) = performed ?s3" for r
    using e3 by (simp add: complete_def Let_def)
  show "let s2 = calls operation (o1 # os) s; s3 = tick operation s2
       in performed s2 = performed s \<and>
          performed s3 = performed s @ [(operation, foldl (++) o1 os)] \<and>
          running s3 = running s @ [operation] \<and>
          (\<forall>i \<le> length os. settled s3 (nextPromise s + i) = None) \<and>
          (\<forall>i \<le> length os.
             settled (complete operation (Inr result) s3) (nextPromise s + i)
               = Some (Resolved result)) \<and>
          (\<forall>i \<le> length os.
             settled (complete operation (Inl err) s3) (nextPromise s + i)
               = Some (Rejected err)) \<and>
          running (complete operation res s3) = running s \<and>
          performed (complete operation res s3) = performed s3"
    unfolding Let_def
    using e2 e3 fresh r4 p4 by (simp add: c settle_apply del: upt_Suc)
next
  have a: "sinv (accessory_run sts new_accessory)" by (rule sinv_run[OF sinv_new])
  then show "sinv (accessory_run sts new_accessory)" .
  show "pinv (accessory_run sts new_accessory)" by (rule pinv_run[OF pinv_new])
  show "distinct (running (accessory_run sts new_accessory))" using a by (simp add: sinv_def)
qed

text \<open>Two rapid calls setting the same program option, then the operation runs.\<close>

definition two_calls :: accessory where
  "two_calls = calls 1 [[''temperature'' \<mapsto> Num 180, ''fan'' \<mapsto> Bool True],
                        [''temperature'' \<mapsto> Num 200]] new_accessory"

theorem serialise_coalesces_witness:
  "sinv new_accessory \<and> pinv new_accessory \<and> idle new_accessory 1 \<and>
   performed two_calls = [] \<and>
   performed (tick 1 two_calls)
     = [(1, [''temperature'' \<mapsto> Num 180, ''fan'' \<mapsto> Bool True] ++ [''temperature'' \<mapsto> Num 200])] \<and>
   snd (hd (performed (tick 1 two_calls))) ''temperature'' = Some (Num 200) \<and>
   snd (hd (performed (tick 1 two_calls))) ''fan'' = Some (Bool True) \<and>
   settled (complete 1 (Inr (Str ''done'')) (tick 1 two_calls)) 0 = Some (Resolved (Str ''done'')) \<and>
   settled (complete 1 (Inr (Str ''done'')) (tick 1 two_calls)) 1 = Some (Resolved (Str ''done'')) \<and>
   settled (complete 1 (Inl (Error ''failed'')) (tick 1 two_calls)) 0 = Some (Rejected (Error ''failed'')) \<and>
   settled (complete 1 (Inl (Error ''failed'')) (tick 1 two_calls)) 1 = Some (Rejected (Error ''failed''))"
proof -
  have i: "idle new_accessory 1" by (simp add: idle_def new_accessory_def)
  note T = serialise_coalesces[of new_accessory 1
      "[''temperature'' \<mapsto> Num 180, ''fan'' \<mapsto> Bool True]" "[[''temperature'' \<mapsto> Num 200]]",
      THEN conjunct1, THEN mp, OF conjI[OF sinv_new conjI[OF pinv_new i]],
      unfolded Let_def, folded two_calls_def]
  have n: "nextPromise new_accessory = 0" by (simp add: new_accessory_def)
  have p: "performed new_accessory = []" by (simp add: new_accessory_def)
  from T[of "Str ''done''" "Error ''failed''" "Inr Null"] show ?thesis
    using sinv_new pinv_new i n p by (simp add: le_Suc_eq all_conj_distrib)
qed


end
